theory Spec2Isabelle
  imports Main "HOL-Library.Sublist" "HOL-Library.Word"
begin

section \<open>move\_homedir.cpp: rewriting the home directory in the registry\<close>

text \<open>
  A shallow embedding of \<^verbatim>\<open>src/move_homedir.cpp\<close>: the string primitive
  \<^verbatim>\<open>Replace\<close>, the class \<^verbatim>\<open>RegKey\<close> and the recursive walk
  \<^verbatim>\<open>iter\<close>. Wide characters are modelled as \<^typ>\<open>char\<close>, a
  \<^verbatim>\<open>std::wstring\<close> as a \<^typ>\<open>string\<close>. Console output is not modelled.
\<close>

subsection \<open>The string primitives of the C++ library\<close>

text \<open>
  \<open>search needle hay\<close> is the offset of the first place of \<open>hay\<close> at which
  \<open>needle\<close> starts, the scan that both \<^verbatim>\<open>std::wstring::find\<close> and
  \<^verbatim>\<open>wcsstr\<close> perform; \<open>None\<close> stands for \<^verbatim>\<open>npos\<close> and for
  the null pointer.
\<close>

fun search :: "'a list \<Rightarrow> 'a list \<Rightarrow> nat option" where
  "search needle [] = (if needle = [] then Some 0 else None)"
| "search needle (x # xs) =
     (if prefix needle (x # xs) then Some 0 else map_option Suc (search needle xs))"

text \<open>\<^verbatim>\<open>value.find(needle, pos)\<close>: the first occurrence at or after \<open>pos\<close>.\<close>

definition wstring_find :: "'a list \<Rightarrow> 'a list \<Rightarrow> nat \<Rightarrow> nat option" where
  "wstring_find value needle pos =
     (if length value < pos then None
      else map_option (\<lambda>i. pos + i) (search needle (drop pos value)))"

text \<open>
  \<^verbatim>\<open>value.replace(pos, n, str)\<close>. The loop below only calls it with a position
  that \<open>wstring_find\<close> returned, so the \<^verbatim>\<open>out_of_range\<close> exception of a
  position beyond the end cannot occur.
\<close>

definition wstring_replace :: "'a list \<Rightarrow> nat \<Rightarrow> nat \<Rightarrow> 'a list \<Rightarrow> 'a list" where
  "wstring_replace value pos n str = take pos value @ str @ drop (pos + n) value"

text \<open>
  \<^verbatim>\<open>wcsstr(str, strSearch)\<close> on a C string, and the C string that a buffer
  holds: the characters before the first NUL.
\<close>

definition wcsstr :: "string \<Rightarrow> string \<Rightarrow> nat option" where
  "wcsstr str strSearch = search strSearch str"

definition wcs :: "string \<Rightarrow> string" where
  "wcs buf = takeWhile (\<lambda>c. c \<noteq> CHR 0x00) buf"

subsection \<open>Replace (lines 219--235)\<close>

text \<open>
  The \<^verbatim>\<open>while (true)\<close> loop of \<^verbatim>\<open>Replace\<close>, with the two local
  variables \<open>value\<close> and \<open>pos\<close> as arguments. The loop has no bound in the
  source, so it is a partial function: \<open>None\<close> means that it never leaves the loop.
  Positions are natural numbers; a \<^verbatim>\<open>size_t\<close> holds every position of a string
  that fits in memory.
\<close>

partial_function (option) Replace_loop ::
  "'a list \<Rightarrow> 'a list \<Rightarrow> 'a list \<Rightarrow> nat \<Rightarrow> 'a list option" where
  "Replace_loop needle replacement value pos =
     (case wstring_find value needle pos of
        None \<Rightarrow> Some value
      | Some p \<Rightarrow>
          Replace_loop needle replacement
            (wstring_replace value p (length needle) replacement) (p + length replacement))"

declare Replace_loop.simps [code]

definition Replace :: "'a list \<Rightarrow> 'a list \<Rightarrow> 'a list \<Rightarrow> 'a list option" where
  "Replace haystack needle replacement = Replace_loop needle replacement haystack 0"

text \<open>
  The specification's wording of the same function, for comparison with the code:
  substitute every non-overlapping occurrence, scanning left to right, and continue
  behind the text that the occurrence covered, so that an inserted replacement is never
  scanned. The specification leaves the empty needle undefined; here it changes nothing.
\<close>

function replace_spec :: "'a list \<Rightarrow> 'a list \<Rightarrow> 'a list \<Rightarrow> 'a list" where
  "replace_spec needle replacement hay =
     (if needle = [] then hay
      else case search needle hay of
             None \<Rightarrow> hay
           | Some p \<Rightarrow>
               take p hay @ replacement @
               replace_spec needle replacement (drop (p + length needle) hay))"
  by pat_completeness auto
termination
proof (relation "measure (\<lambda>(needle, replacement, hay). length hay)")
  show "wf (measure (\<lambda>(needle, replacement, hay). length hay))" by simp
next
  fix needle replacement hay :: "'a list" and p
  assume ne: "needle \<noteq> []" and found: "search needle hay = Some p"
  have bound: "search needle h = Some q \<Longrightarrow> q + length needle \<le> length h" for h q
    by (induction h arbitrary: q) (auto split: if_splits dest: prefix_length_le)
  from ne have "0 < length needle" by simp
  with bound [OF found]
  show "((needle, replacement, drop (p + length needle) hay), (needle, replacement, hay))
      \<in> measure (\<lambda>(needle, replacement, hay). length hay)"
    by (simp del: length_greater_0_conv)
qed

declare replace_spec.simps [simp del]

text \<open>
  A replacement that cannot take part in an occurrence of the needle: in every text
  \<open>x @ replacement @ y\<close>, an occurrence of the needle lies wholly in \<open>x\<close> or
  wholly in \<open>y\<close>.
\<close>

definition no_overlap :: "'a list \<Rightarrow> 'a list \<Rightarrow> bool" where
  "no_overlap needle replacement \<longleftrightarrow>
     (\<forall>x y i. prefix needle (drop i (x @ replacement @ y)) \<longrightarrow>
        i + length needle \<le> length x \<or> length x + length replacement \<le> i)"

text \<open>
  The same condition in a form that can be computed: no suffix of the replacement starts
  the needle or holds it, and no proper suffix of the needle starts the replacement or is
  started by it.
\<close>

definition apart :: "'a list \<Rightarrow> 'a list \<Rightarrow> bool" where
  "apart needle replacement \<longleftrightarrow>
     list_all (\<lambda>k. \<not> prefix needle (drop k replacement) \<and> \<not> prefix (drop k replacement) needle)
       [0..<length replacement] \<and>
     list_all (\<lambda>j. \<not> prefix (drop j needle) replacement \<and> \<not> prefix replacement (drop j needle))
       [1..<length needle]"

subsection \<open>Constants\<close>

type_synonym DWORD = "32 word"

text \<open>The error codes of \<^verbatim>\<open>winerror.h\<close> that the program compares against.\<close>

definition ERROR_SUCCESS :: DWORD where "ERROR_SUCCESS = 0"
definition ERROR_FILE_NOT_FOUND :: DWORD where "ERROR_FILE_NOT_FOUND = 2"
definition ERROR_ACCESS_DENIED :: DWORD where "ERROR_ACCESS_DENIED = 5"
definition ERROR_MORE_DATA :: DWORD where "ERROR_MORE_DATA = 234"
definition ERROR_UNSUPPORTED_TYPE :: DWORD where "ERROR_UNSUPPORTED_TYPE = 1630"

definition MAX_KEY_LENGTH :: nat where "MAX_KEY_LENGTH = 255"
definition MAX_VALUE_NAME :: nat where "MAX_VALUE_NAME = 16383"
definition INT_MAX :: int where "INT_MAX = 2147483647"

definition FROM_NAME :: string where "FROM_NAME = ''Users'' @ [CHR 0x5C] @ ''from''"
definition TO_NAME :: string where "TO_NAME = ''Users'' @ [CHR 0x5C] @ ''to''"

subsection \<open>The registry\<close>

text \<open>
  The registry is the program's environment, so every answer it can give is part of the
  model's input. A value has a name, a type tag with its payload, and the error codes
  with which the registry answers its enumeration, a read and a write (\<open>ERROR_SUCCESS\<close>
  when it raises none). A key has its subkeys and its values in enumeration order; the
  entry of a subkey carries its name and the error codes of its enumeration and of
  opening it. The program only changes the payload of values, so the walk returns the
  key it was given with the payloads it wrote.

  Names are unique within a key; opening or reading the name that index \<open>i\<close> has just
  enumerated therefore reaches entry \<open>i\<close>, and the calls below take the entry itself.
\<close>

datatype regdata = REG_SZ string | REG_OTHER "8 word list"

record regvalue =
  enumValueFault :: DWORD
  valueName :: string
  getFault :: DWORD
  content :: regdata
  setFault :: DWORD

datatype key = Key (subkeys: "subkey list") (vals: "regvalue list")
  and subkey =
    Subkey (enumKeyFault: DWORD) (subkeyName: string) (openFault: DWORD) (target: key)

text \<open>The size of a payload in bytes; a string is stored with its terminating NUL.\<close>

fun data_bytes :: "regdata \<Rightarrow> nat" where
  "data_bytes (REG_SZ s) = 2 * (length s + 1)"
| "data_bytes (REG_OTHER bs) = length bs"

text \<open>\<^verbatim>\<open>RegOpenKeyEx(parent, name, 0, KEY_ALL_ACCESS | KEY_WOW64_64KEY, &key)\<close>.\<close>

definition RegOpenKeyEx :: "subkey \<Rightarrow> DWORD \<times> key option" where
  "RegOpenKeyEx entry =
     (if openFault entry = ERROR_SUCCESS then (ERROR_SUCCESS, Some (target entry))
      else (openFault entry, None))"

text \<open>
  The members that \<^verbatim>\<open>RegQueryInfoKey\<close> fills and the program reads. The counts
  are natural numbers: the registry reports them in a \<^verbatim>\<open>DWORD\<close>, and the index
  that runs below them cannot wrap. The longest value size stays a \<^verbatim>\<open>DWORD\<close>,
  since the program computes with it.
\<close>

record KeyInfo =
  subkeyCount :: nat
  valueCount :: nat
  longestValueData :: DWORD

definition RegQueryInfoKey :: "key \<Rightarrow> KeyInfo" where
  "RegQueryInfoKey k =
     \<lparr>subkeyCount = length (subkeys k),
      valueCount = length (vals k),
      longestValueData = of_nat (fold max (map (\<lambda>v. data_bytes (content v)) (vals k)) 0)\<rparr>"

text \<open>
  \<^verbatim>\<open>RegEnumKeyEx\<close> and \<^verbatim>\<open>RegEnumValue\<close> at the index of the entry, into a
  name buffer of \<open>cchName\<close> characters (the terminating NUL included).
\<close>

definition RegEnumKeyEx :: "subkey \<Rightarrow> nat \<Rightarrow> DWORD \<times> string" where
  "RegEnumKeyEx entry cchName =
     (if enumKeyFault entry \<noteq> ERROR_SUCCESS then (enumKeyFault entry, [])
      else if cchName < length (subkeyName entry) + 1 then (ERROR_MORE_DATA, [])
      else (ERROR_SUCCESS, subkeyName entry))"

definition RegEnumValue :: "regvalue \<Rightarrow> nat \<Rightarrow> DWORD \<times> string" where
  "RegEnumValue v cchName =
     (if enumValueFault v \<noteq> ERROR_SUCCESS then (enumValueFault v, [])
      else if cchName < length (valueName v) + 1 then (ERROR_MORE_DATA, [])
      else (ERROR_SUCCESS, valueName v))"

text \<open>
  \<^verbatim>\<open>RegGetValue(key, NULL, valueName, RRF_RT_REG_SZ, &type, data, &size)\<close> into a
  buffer of \<open>cbData\<close> bytes: only a string-typed value is delivered.
\<close>

definition RegGetValue :: "regvalue \<Rightarrow> DWORD \<Rightarrow> DWORD \<times> string" where
  "RegGetValue v cbData =
     (if getFault v \<noteq> ERROR_SUCCESS then (getFault v, [])
      else case content v of
             REG_OTHER bs \<Rightarrow> (ERROR_UNSUPPORTED_TYPE, [])
           | REG_SZ s \<Rightarrow>
               if unat cbData < data_bytes (REG_SZ s) then (ERROR_MORE_DATA, [])
               else (ERROR_SUCCESS, s))"

text \<open>\<^verbatim>\<open>RegSetValueEx(key, valueName, 0, REG_SZ, data, size)\<close>.\<close>

definition RegSetValueEx :: "regvalue \<Rightarrow> string \<Rightarrow> DWORD \<times> regvalue" where
  "RegSetValueEx v data =
     (if setFault v \<noteq> ERROR_SUCCESS then (setFault v, v)
      else (ERROR_SUCCESS, v\<lparr>content := REG_SZ data\<rparr>))"

subsection \<open>class RegKey (lines 40--200)\<close>

text \<open>
  The handle \<open>key\<close> is the key it opens, absent when nothing was opened. The members
  that \<^verbatim>\<open>getInfo\<close> assigns are \<open>info\<close>; the constructor does not initialise
  them, and \<open>None\<close> says that they were never assigned.
\<close>

record RegKey =
  depth :: int
  errorCode :: DWORD
  isValidb :: bool
  key :: "key option"
  name :: string
  info :: "KeyInfo option"

definition getInfo :: "RegKey \<Rightarrow> RegKey" where
  "getInfo this =
     (case key this of
        None \<Rightarrow> this
      | Some k \<Rightarrow> this\<lparr>info := Some (RegQueryInfoKey k)\<rparr>)"

text \<open>
  The constructor \<^verbatim>\<open>RegKey(parent, name, depth)\<close>; \<open>entry\<close> is what
  \<open>name\<close> denotes under \<open>parent\<close>.
\<close>

definition RegKey_new :: "subkey \<Rightarrow> string \<Rightarrow> int \<Rightarrow> RegKey" where
  "RegKey_new entry nm d =
     (let (err, h) = RegOpenKeyEx entry;
          this = \<lparr>depth = d, errorCode = err, isValidb = (err = ERROR_SUCCESS),
                  key = h, name = nm, info = None\<rparr>
      in if isValidb this then getInfo this else this)"

definition isValid :: "RegKey \<Rightarrow> bool" where "isValid this = isValidb this"
definition getErrorCode :: "RegKey \<Rightarrow> DWORD" where "getErrorCode this = errorCode this"
definition getDepth :: "RegKey \<Rightarrow> int" where "getDepth this = depth this"
definition getKey :: "RegKey \<Rightarrow> key option" where "getKey this = key this"
definition getName :: "RegKey \<Rightarrow> string" where "getName this = name this"

subsection \<open>iter (lines 254--345)\<close>

text \<open>
  \<^verbatim>\<open>count++\<close> on an \<^verbatim>\<open>int\<close>: signed overflow is undefined in C++, so
  the increment has no result at \<open>INT_MAX\<close>.
\<close>

definition increment :: "int \<Rightarrow> int option" where
  "increment count = (if count < INT_MAX then Some (count + 1) else None)"

text \<open>
  The registry's record of the \<^verbatim>\<open>RegSetValueEx\<close> calls it received: the value
  name, the data and the code it answered.
\<close>

type_synonym settrace = "(string \<times> string \<times> DWORD) list"

text \<open>The loop goes on to the next index; the entry it leaves behind is \<open>e\<close>.\<close>

definition resume :: "'e \<Rightarrow> (bool \<times> 'e list \<times> int \<times> settrace) option
    \<Rightarrow> (bool \<times> 'e list \<times> int \<times> settrace) option" where
  "resume e rest = map_option (\<lambda>(ok, es, count, trace). (ok, e # es, count, trace)) rest"

text \<open>
  The second loop of \<^verbatim>\<open>iter\<close> (lines 294--343). The list holds the values from
  index \<open>i\<close> on, \<open>n\<close> is what is left of the cached value count, \<open>cb\<close> the
  size of the data buffer. The result is the return value of \<^verbatim>\<open>iter\<close>, the
  values as the loop leaves them, the counter and the trace; \<open>None\<close> is an execution
  without a defined result.
\<close>

fun value_loop :: "DWORD \<Rightarrow> regvalue list \<Rightarrow> nat \<Rightarrow> int \<Rightarrow> settrace
    \<Rightarrow> (bool \<times> regvalue list \<times> int \<times> settrace) option" where
  "value_loop cb vs 0 count trace = Some (True, vs, count, trace)"
| "value_loop cb [] (Suc n) count trace = Some (False, [], count, trace)"
| "value_loop cb (v # vs) (Suc n) count trace =
     (case RegEnumValue v MAX_VALUE_NAME of (errValue, valName) \<Rightarrow>
      if errValue \<noteq> ERROR_SUCCESS then Some (False, v # vs, count, trace)
      else case RegGetValue v cb of (errValue, data) \<Rightarrow>
        if errValue \<noteq> ERROR_SUCCESS \<and> errValue \<noteq> ERROR_UNSUPPORTED_TYPE
        then Some (False, v # vs, count, trace)
        else if errValue = ERROR_SUCCESS \<and> wcsstr (wcs data) FROM_NAME \<noteq> None
        then (case increment count of
                None \<Rightarrow> None
              | Some count' \<Rightarrow>
                 (case Replace (wcs data) FROM_NAME TO_NAME of
                    None \<Rightarrow> None
                  | Some replaced \<Rightarrow>
                     (case RegSetValueEx v replaced of (setRes, v') \<Rightarrow>
                        if setRes \<noteq> ERROR_SUCCESS
                        then Some (False, v' # vs, count', trace @ [(valName, replaced, setRes)])
                        else resume v' (value_loop cb vs n count'
                               (trace @ [(valName, replaced, setRes)])))))
        else resume v (value_loop cb vs n count trace))"

text \<open>
  \<^verbatim>\<open>iter\<close> and its first loop (lines 259--292). An index beyond the last subkey
  or value makes the enumeration fail (the second equation of each loop). Reading the
  members of a handle that was never opened has no defined result.
\<close>

function (sequential) iter :: "RegKey \<Rightarrow> int \<Rightarrow> settrace
    \<Rightarrow> (bool \<times> key \<times> int \<times> settrace) option"
  and subkey_loop :: "int \<Rightarrow> subkey list \<Rightarrow> nat \<Rightarrow> int \<Rightarrow> settrace
    \<Rightarrow> (bool \<times> subkey list \<times> int \<times> settrace) option" where
  "iter keyHolder count trace =
     (case getKey keyHolder of
        None \<Rightarrow> None
      | Some k \<Rightarrow>
         (case info keyHolder of
            None \<Rightarrow> None
          | Some md \<Rightarrow>
             (case subkey_loop (getDepth keyHolder) (subkeys k) (subkeyCount md) count trace of
                None \<Rightarrow> None
              | Some (ok, sks, count1, trace1) \<Rightarrow>
                  if \<not> ok then Some (False, Key sks (vals k), count1, trace1)
                  else (case value_loop (longestValueData md * 2 + 2) (vals k)
                               (valueCount md) count1 trace1 of
                          None \<Rightarrow> None
                        | Some (ok2, vs, count2, trace2) \<Rightarrow>
                            Some (ok2, Key sks vs, count2, trace2)))))"
| "subkey_loop d es 0 count trace = Some (True, es, count, trace)"
| "subkey_loop d [] (Suc n) count trace = Some (False, [], count, trace)"
| "subkey_loop d (e # es) (Suc n) count trace =
     (case RegEnumKeyEx e MAX_KEY_LENGTH of (errValue, keyName) \<Rightarrow>
      if errValue \<noteq> ERROR_SUCCESS then Some (False, e # es, count, trace)
      else let subKey = RegKey_new e keyName (d + 1) in
        if \<not> isValid subKey \<and> getErrorCode subKey \<noteq> ERROR_FILE_NOT_FOUND
           \<and> getErrorCode subKey \<noteq> ERROR_ACCESS_DENIED
        then Some (False, e # es, count, trace)
        else if isValid subKey
        then (case iter subKey count trace of
                None \<Rightarrow> None
              | Some (ok, k', count', trace') \<Rightarrow>
                  if \<not> ok
                  then Some (False,
                         Subkey (enumKeyFault e) (subkeyName e) (openFault e) k' # es,
                         count', trace')
                  else resume (Subkey (enumKeyFault e) (subkeyName e) (openFault e) k')
                         (subkey_loop d es n count' trace'))
        else resume e (subkey_loop d es n count trace))"
  by pat_completeness auto
termination
  apply (relation "measure (\<lambda>x. case x of
          Inl (keyHolder, count, trace) \<Rightarrow>
            (case key keyHolder of None \<Rightarrow> 0 | Some k \<Rightarrow> size k)
        | Inr (d, es, n, count, trace) \<Rightarrow> size_list size es)")
     apply simp
    apply (auto simp: getKey_def RegKey_new_def RegOpenKeyEx_def getInfo_def Let_def
      split: option.splits)
  subgoal for keyHolder k md by (cases k) simp
  subgoal for d e es y by (cases e) simp
  done

subsection \<open>Measures of a walk\<close>

text \<open>
  The write-backs that the registry accepted, among those it received: the number of
  values whose replacement was written.
\<close>

definition accepted :: "settrace \<Rightarrow> nat" where
  "accepted trace = length (filter (\<lambda>(valName, data, setRes). setRes = ERROR_SUCCESS) trace)"

text \<open>
  What a walk does to the counter and the trace: it appends the write-backs \<open>new\<close>
  and adds their number to the counter; all of them were accepted when the walk
  succeeds, and all but at most one in any case.
\<close>

definition tally :: "bool \<Rightarrow> int \<Rightarrow> settrace \<Rightarrow> int \<Rightarrow> settrace \<Rightarrow> bool" where
  "tally ok count trace count' trace' \<longleftrightarrow>
     (\<exists>new. trace' = trace @ new \<and> count' = count + int (length new) \<and>
        (ok \<longrightarrow> accepted new = length new) \<and> length new \<le> accepted new + 1)"

text \<open>
  A key under which the walk meets a child whose open fails with a code other than
  \<open>ERROR_FILE_NOT_FOUND\<close> and \<open>ERROR_ACCESS_DENIED\<close>: among its children, or below
  a child that opens.
\<close>

function fatal_open :: "key \<Rightarrow> bool"
  and fatal_open_list :: "subkey list \<Rightarrow> bool" where
  "fatal_open (Key sks vs) = fatal_open_list sks"
| "fatal_open_list [] = False"
| "fatal_open_list (e # es) =
     ((fst (RegOpenKeyEx e) \<noteq> ERROR_SUCCESS \<and> fst (RegOpenKeyEx e) \<noteq> ERROR_FILE_NOT_FOUND
        \<and> fst (RegOpenKeyEx e) \<noteq> ERROR_ACCESS_DENIED)
      \<or> (fst (RegOpenKeyEx e) = ERROR_SUCCESS \<and> fatal_open (target e))
      \<or> fatal_open_list es)"
  by pat_completeness auto
termination
  apply (relation "measure (\<lambda>x. case x of Inl k \<Rightarrow> size k | Inr es \<Rightarrow> size_list size es)")
     apply simp_all
  subgoal for e es by (cases e) simp
  done

text \<open>
  The tree cut off where the walk meets that child: the child and everything the walk
  would visit after it are gone, that is the later siblings at every level above it and
  the values of every key that encloses it. A key without such a child is left whole.
\<close>

function before_fatal :: "key \<Rightarrow> key"
  and before_fatal_list :: "subkey list \<Rightarrow> subkey list" where
  "before_fatal (Key sks vs) =
     (if fatal_open_list sks then Key (before_fatal_list sks) [] else Key sks vs)"
| "before_fatal_list [] = []"
| "before_fatal_list (e # es) =
     (if fst (RegOpenKeyEx e) \<noteq> ERROR_SUCCESS \<and> fst (RegOpenKeyEx e) \<noteq> ERROR_FILE_NOT_FOUND
         \<and> fst (RegOpenKeyEx e) \<noteq> ERROR_ACCESS_DENIED
      then []
      else if fst (RegOpenKeyEx e) = ERROR_SUCCESS \<and> fatal_open (target e)
      then [Subkey (enumKeyFault e) (subkeyName e) (openFault e) (before_fatal (target e))]
      else e # before_fatal_list es)"
  by pat_completeness auto
termination
  apply (relation "measure (\<lambda>x. case x of Inl k \<Rightarrow> size k | Inr es \<Rightarrow> size_list size es)")
     apply simp_all
  subgoal for e es by (cases e) simp
  done

text \<open>The number of values in a key and everything below it.\<close>

function total_values :: "key \<Rightarrow> nat"
  and total_values_list :: "subkey list \<Rightarrow> nat" where
  "total_values (Key sks vs) = length vs + total_values_list sks"
| "total_values_list [] = 0"
| "total_values_list (e # es) = total_values (target e) + total_values_list es"
  by pat_completeness auto
termination
  apply (relation "measure (\<lambda>x. case x of Inl k \<Rightarrow> size k | Inr es \<Rightarrow> size_list size es)")
     apply simp_all
  subgoal for e es by (cases e) simp
  done

subsection \<open>Example registries\<close>

text \<open>
  The value \<open>p = C:\Users\from\data\<close> of the specification's end-to-end scenario and
  what the walk writes for it; the child \<open>A\<close> holding one value; a root as
  \<^verbatim>\<open>main\<close> opens it, by the empty name; a child whose open is denied, one whose
  open fails with another code, a child that opens and holds such a child beside a
  matching value, and a value that is not a string.
\<close>

definition scenario_p :: regvalue where
  "scenario_p =
     \<lparr>enumValueFault = ERROR_SUCCESS, valueName = ''p'', getFault = ERROR_SUCCESS,
      content = REG_SZ (''C:'' @ [CHR 0x5C] @ ''Users'' @ [CHR 0x5C] @ ''from'' @ [CHR 0x5C] @ ''data''),
      setFault = ERROR_SUCCESS\<rparr>"

definition scenario_new :: string where
  "scenario_new = ''C:'' @ [CHR 0x5C] @ ''Users'' @ [CHR 0x5C] @ ''to'' @ [CHR 0x5C] @ ''data''"

definition scenario_A :: "regvalue \<Rightarrow> subkey" where
  "scenario_A v = Subkey ERROR_SUCCESS ''A'' ERROR_SUCCESS (Key [] [v])"

definition hive :: "key \<Rightarrow> subkey" where
  "hive k = Subkey ERROR_SUCCESS [] ERROR_SUCCESS k"

definition denied_child :: subkey where
  "denied_child = Subkey ERROR_SUCCESS ''D'' ERROR_ACCESS_DENIED (Key [] [])"

definition broken_child :: subkey where
  "broken_child = Subkey ERROR_SUCCESS ''B'' 8 (Key [] [])"

definition stuck_child :: subkey where
  "stuck_child = Subkey ERROR_SUCCESS ''S'' ERROR_SUCCESS (Key [broken_child] [scenario_p])"

definition binary_value :: regvalue where
  "binary_value =
     \<lparr>enumValueFault = ERROR_SUCCESS, valueName = ''b'', getFault = ERROR_SUCCESS,
      content = REG_OTHER [1, 2, 3], setFault = ERROR_SUCCESS\<rparr>"

section \<open>Properties\<close>

subsection \<open>Searching\<close>

lemma search_Some_bound:
  "search needle hay = Some p \<Longrightarrow> p + length needle \<le> length hay"
  by (induction hay arbitrary: p) (auto split: if_splits dest: prefix_length_le)

lemma search_Some_first:
  "search needle hay = Some p \<Longrightarrow> q < p \<Longrightarrow> \<not> prefix needle (drop q hay)"
proof (induction hay arbitrary: p q)
  case Nil
  then show ?case by (simp split: if_splits)
next
  case (Cons x xs)
  from Cons.prems have np: "\<not> prefix needle (x # xs)" by (auto split: if_splits)
  with Cons.prems obtain p' where p': "search needle xs = Some p'" "p = Suc p'" by auto
  show ?case
  proof (cases q)
    case 0
    with np show ?thesis by simp
  next
    case (Suc q')
    with Cons.prems p' have "q' < p'" by simp
    from Cons.IH [OF p'(1) this] Suc show ?thesis by simp
  qed
qed

lemma search_None_iff: "search needle hay = None \<longleftrightarrow> \<not> sublist needle hay"
  by (induction hay) (auto simp: sublist_Cons_right)

lemma sublist_iff_prefix_drop: "sublist needle hay \<longleftrightarrow> (\<exists>i. prefix needle (drop i hay))"
proof
  assume "sublist needle hay"
  then obtain ps ss where "hay = ps @ needle @ ss" by (auto simp: sublist_def)
  then have "prefix needle (drop (length ps) hay)" by simp
  then show "\<exists>i. prefix needle (drop i hay)" ..
next
  assume "\<exists>i. prefix needle (drop i hay)"
  then obtain i zs where "drop i hay = needle @ zs" by (auto simp: prefix_def)
  then have "take i hay @ drop i hay = take i hay @ needle @ zs" by simp
  then have "hay = take i hay @ needle @ zs" by simp
  then show "sublist needle hay" unfolding sublist_def by blast
qed

subsection \<open>The loop of Replace computes the specified substitution\<close>

lemma Replace_loop_replace_spec:
  "needle \<noteq> [] \<Longrightarrow> pos \<le> length value \<Longrightarrow>
   Replace_loop needle replacement value pos =
     Some (take pos value @ replace_spec needle replacement (drop pos value))"
proof (induction "length value - pos" arbitrary: "value" pos rule: less_induct)
  case less
  show ?case
  proof (cases "search needle (drop pos value)")
    case None
    with less.prems show ?thesis
      by (subst Replace_loop.simps, subst replace_spec.simps) (simp add: wstring_find_def)
  next
    case (Some q)
    let ?p = "pos + q"
    let ?v = "wstring_replace value ?p (length needle) replacement"
    from Some have bound: "q + length needle \<le> length value - pos"
      by (auto dest: search_Some_bound)
    with less.prems have len: "?p + length needle \<le> length value" by simp
    have lenv: "length ?v = length value - length needle + length replacement"
      using len by (simp add: wstring_replace_def)
    have "length needle > 0" using less.prems by simp
    then have dec: "length ?v - (?p + length replacement) < length value - pos"
      using len lenv by linarith
    have le: "?p + length replacement \<le> length ?v" using len lenv by simp
    have tk: "take (?p + length replacement) ?v = take ?p value @ replacement"
      using len by (simp add: wstring_replace_def)
    have dr: "drop (?p + length replacement) ?v = drop (?p + length needle) value"
      using len by (simp add: wstring_replace_def)
    have "Replace_loop needle replacement value pos =
          Replace_loop needle replacement ?v (?p + length replacement)"
      using Some less.prems by (subst Replace_loop.simps) (simp add: wstring_find_def)
    also have "\<dots> = Some (take (?p + length replacement) ?v @
        replace_spec needle replacement (drop (?p + length replacement) ?v))"
      using less.hyps [OF dec less.prems(1) le] .
    also have "\<dots> = Some (take pos value @ replace_spec needle replacement (drop pos value))"
    proof -
      have sub: "replace_spec needle replacement (drop pos value) =
          take q (drop pos value) @ replacement @
          replace_spec needle replacement (drop (q + length needle) (drop pos value))"
        using Some less.prems(1) by (subst replace_spec.simps) simp
      have t: "take pos value @ take q (drop pos value) = take ?p value"
        by (simp add: take_add)
      have d: "drop (q + length needle) (drop pos value) = drop (?p + length needle) value"
        by (simp add: ac_simps)
      show ?thesis unfolding tk dr sub d t [symmetric] by simp
    qed
    finally show ?thesis .
  qed
qed

lemma Replace_replace_spec:
  "needle \<noteq> [] \<Longrightarrow>
   Replace haystack needle replacement = Some (replace_spec needle replacement haystack)"
  by (simp add: Replace_def Replace_loop_replace_spec)

lemma Replace_loop_empty_needle:
  assumes "Replace_loop needle replacement value pos = Some y"
  shows "\<not> (needle = [] \<and> pos \<le> length value)"
proof (rule Replace_loop.raw_induct
    [where P = "\<lambda>n r v p y. \<not> (n = [] \<and> p \<le> length v)", OF _ assms])
  fix loop :: "'a list \<Rightarrow> 'a list \<Rightarrow> 'a list \<Rightarrow> nat \<Rightarrow> 'a list option"
  fix n r v :: "'a list" and p :: nat and y :: "'a list"
  assume IH: "\<And>n r v p y. loop n r v p = Some y \<Longrightarrow> \<not> (n = [] \<and> p \<le> length v)"
  assume step: "(case wstring_find v n p of None \<Rightarrow> Some v
      | Some q \<Rightarrow> loop n r (wstring_replace v q (length n) r) (q + length r)) = Some y"
  show "\<not> (n = [] \<and> p \<le> length v)"
  proof
    assume a: "n = [] \<and> p \<le> length v"
    then have "wstring_find v n p = Some p"
      by (cases "drop p v") (simp_all add: wstring_find_def)
    with step have "loop n r (wstring_replace v p (length n) r) (p + length r) = Some y"
      by simp
    from IH [OF this] a show False by (simp add: wstring_replace_def)
  qed
qed

lemma Replace_empty_needle: "Replace haystack [] replacement = None"
proof (cases "Replace haystack [] replacement")
  case None
  then show ?thesis .
next
  case (Some y)
  then show ?thesis using Replace_loop_empty_needle [of "[]" replacement haystack 0 y]
    by (simp add: Replace_def)
qed

lemma wstring_find_step:
  assumes "needle \<noteq> []" and "wstring_find value needle pos = Some p"
  shows "length (wstring_replace value p (length needle) replacement) - (p + length replacement)
         < length value - pos"
proof -
  from assms(2) obtain q where q: "search needle (drop pos value) = Some q" "p = pos + q"
    and pos: "pos \<le> length value"
    by (auto simp: wstring_find_def split: if_splits)
  from search_Some_bound [OF q(1)] pos q(2) have len: "p + length needle \<le> length value"
    by simp
  from assms(1) have "0 < length needle" by simp
  with len q(2) show ?thesis by (simp add: wstring_replace_def del: length_greater_0_conv)
qed

subsection \<open>Occurrences of the needle in the result\<close>

lemma apart_no_overlap:
  assumes "apart needle replacement"
  shows "no_overlap needle replacement"
  unfolding no_overlap_def
proof (intro allI impI)
  fix x y :: "'a list" and i
  assume occ: "prefix needle (drop i (x @ replacement @ y))"
  show "i + length needle \<le> length x \<or> length x + length replacement \<le> i"
  proof (rule ccontr)
    assume "\<not> ?thesis"
    then have over: "length x < i + length needle" "i < length x + length replacement" by auto
    show False
    proof (cases "length x \<le> i")
      case True
      define k where "k = i - length x"
      with True over have k: "k < length replacement" by simp
      from True occ over have "prefix needle (drop k replacement @ y)" by (simp add: k_def)
      then have "prefix needle (drop k replacement) \<or> prefix (drop k replacement) needle"
        by (auto simp: prefix_append)
      moreover from assms k
      have "\<not> prefix needle (drop k replacement) \<and> \<not> prefix (drop k replacement) needle"
        by (simp add: apart_def list_all_iff)
      ultimately show False by simp
    next
      case False
      define j where "j = length x - i"
      with False over have j: "1 \<le> j" "j < length needle" by simp_all
      from False occ have "prefix needle (drop i x @ replacement @ y)" by simp
      moreover have lj: "length (drop i x) = j" by (simp add: j_def)
      ultimately obtain w where w: "needle = drop i x @ w" "prefix w (replacement @ y)"
        using j by (auto simp: prefix_append dest: prefix_length_le)
      from w(1) lj have wj: "drop j needle = w" by simp
      from w(2) have "prefix w replacement \<or> prefix replacement w"
        by (auto simp: prefix_append)
      then have "prefix (drop j needle) replacement \<or> prefix replacement (drop j needle)"
        unfolding wj .
      moreover from assms j
      have "\<not> prefix (drop j needle) replacement \<and> \<not> prefix replacement (drop j needle)"
        by (simp add: apart_def list_all_iff)
      ultimately show False by simp
    qed
  qed
qed

lemma replace_spec_clean:
  "needle \<noteq> [] \<Longrightarrow> no_overlap needle replacement \<Longrightarrow>
   \<not> sublist needle (replace_spec needle replacement hay)"
proof (induction needle replacement hay rule: replace_spec.induct)
  case (1 needle replacement hay)
  show ?case
  proof (cases "search needle hay")
    case None
    then have "replace_spec needle replacement hay = hay"
      by (subst replace_spec.simps) simp
    with None show ?thesis by (simp add: search_None_iff)
  next
    case (Some p)
    let ?rest = "replace_spec needle replacement (drop (p + length needle) hay)"
    from "1.IH" [OF "1.prems"(1) Some "1.prems"] have IH: "\<not> sublist needle ?rest" .
    from Some have pb: "p + length needle \<le> length hay" by (rule search_Some_bound)
    then have lp: "length (take p hay) = p" by simp
    have eq: "replace_spec needle replacement hay = take p hay @ replacement @ ?rest"
      using Some "1.prems"(1) by (subst replace_spec.simps) simp
    show ?thesis
    proof
      assume "sublist needle (replace_spec needle replacement hay)"
      then obtain i where i: "prefix needle (drop i (take p hay @ replacement @ ?rest))"
        unfolding eq sublist_iff_prefix_drop by blast
      from "1.prems"(2) [unfolded no_overlap_def, rule_format, OF i] lp
      have "i + length needle \<le> p \<or> p + length replacement \<le> i" by auto
      then show False
      proof
        assume a: "i + length needle \<le> p"
        with "1.prems"(1) have "i < p" by (cases needle) auto
        from i a lp have "prefix needle (drop i (take p hay) @ replacement @ ?rest)" by simp
        moreover from a have "length needle \<le> length (drop i (take p hay))" using pb by simp
        ultimately have "prefix needle (drop i (take p hay))"
          by (auto simp: prefix_append)
        then have "prefix needle (take (p - i) (drop i hay))"
          by (simp add: drop_take)
        then have "prefix needle (drop i hay)"
          by (rule prefix_order.trans [OF _ take_is_prefix])
        with search_Some_first [OF Some \<open>i < p\<close>] show False by simp
      next
        assume a: "p + length replacement \<le> i"
        with i lp have "prefix needle (drop (i - p - length replacement) ?rest)" by simp
        with IH show False unfolding sublist_iff_prefix_drop by blast
      qed
    qed
  qed
qed

subsection \<open>Claims about Replace\<close>

text \<open>
  Claim C3, as the specification states it: for a non-empty needle and a replacement that
  does not contain the needle, the result of \<open>Replace\<close> contains no occurrence of the
  needle. The code does not do that: the text before a replacement and the replacement
  can form a new occurrence, which the loop has already passed. With the haystack
  \<open>aab\<close>, the needle \<open>ab\<close> and the replacement \<open>b\<close> the result is \<open>ab\<close>.
\<close>

theorem Replace_leaves_occurrence:
  "''ab'' \<noteq> [] \<and> \<not> sublist ''ab'' ''b'' \<and>
   Replace ''aab'' ''ab'' ''b'' = Some ''ab'' \<and> sublist ''ab'' ''ab''"
proof -
  have "Replace ''aab'' ''ab'' ''b'' = Some ''ab''"
    by (simp add: Replace_def Replace_loop.simps wstring_find_def wstring_replace_def)
  moreover have "\<not> sublist ''ab'' ''b''"
    by (simp add: sublist_Cons_right)
  ultimately show ?thesis by simp
qed

text \<open>
  Claim C3, amended: for every haystack, every non-empty needle and every replacement
  that cannot overlap an occurrence of the needle (in every text \<open>x @ replacement @ y\<close>
  each occurrence of the needle lies wholly in \<open>x\<close> or wholly in \<open>y\<close>),
  \<open>Replace\<close> returns, and its result contains no occurrence of the needle.
\<close>

theorem Replace_removes_all:
  assumes "needle \<noteq> []" and "no_overlap needle replacement"
  shows "\<exists>y. Replace haystack needle replacement = Some y \<and> \<not> sublist needle y"
  using assms by (simp add: Replace_replace_spec replace_spec_clean)

text \<open>
  The program's own pair of strings satisfies the condition, so no rewritten value of the
  registry contains \<open>Users\from\<close> any more.
\<close>

theorem Replace_removes_all_witness:
  "FROM_NAME \<noteq> [] \<and> no_overlap FROM_NAME TO_NAME \<and>
   (\<exists>y. Replace (''C:'' @ [CHR 0x5C] @ FROM_NAME @ [CHR 0x5C] @ FROM_NAME) FROM_NAME TO_NAME = Some y
        \<and> \<not> sublist FROM_NAME y)"
proof -
  have ne: "FROM_NAME \<noteq> []" by (simp add: FROM_NAME_def)
  have "apart FROM_NAME TO_NAME" by (simp add: apart_def FROM_NAME_def TO_NAME_def)
  then have no: "no_overlap FROM_NAME TO_NAME" by (rule apart_no_overlap)
  from Replace_removes_all [OF ne no] ne no show ?thesis by blast
qed

text \<open>
  Claim C5: \<open>Replace\<close> scans left to right over non-overlapping occurrences and
  resumes behind each inserted replacement, which is never scanned again: for a
  non-empty needle it returns exactly the substitution \<open>replace_spec\<close> that the
  specification describes. In particular \<open>Replace aaa aa b = ba\<close>, and both
  occurrences of \<open>Users\from\<close> in \<open>Users\from\docs\Users\from\x\<close> become
  \<open>Users\to\<close>.
\<close>

theorem Replace_left_to_right:
  "(needle \<noteq> [] \<longrightarrow>
      Replace haystack needle replacement = Some (replace_spec needle replacement haystack)) \<and>
   Replace ''aaa'' ''aa'' ''b'' = Some ''ba'' \<and>
   Replace (''Users'' @ [CHR 0x5C] @ ''from'' @ [CHR 0x5C] @ ''docs'' @ [CHR 0x5C] @
            ''Users'' @ [CHR 0x5C] @ ''from'' @ [CHR 0x5C] @ ''x'')
     (''Users'' @ [CHR 0x5C] @ ''from'') (''Users'' @ [CHR 0x5C] @ ''to'') =
   Some (''Users'' @ [CHR 0x5C] @ ''to'' @ [CHR 0x5C] @ ''docs'' @ [CHR 0x5C] @
         ''Users'' @ [CHR 0x5C] @ ''to'' @ [CHR 0x5C] @ ''x'')"
proof (intro conjI impI)
  assume "needle \<noteq> []"
  then show "Replace haystack needle replacement =
      Some (replace_spec needle replacement haystack)"
    by (rule Replace_replace_spec)
next
  show "Replace ''aaa'' ''aa'' ''b'' = Some ''ba''"
    by (simp add: Replace_def Replace_loop.simps wstring_find_def wstring_replace_def)
next
  show "Replace (''Users'' @ [CHR 0x5C] @ ''from'' @ [CHR 0x5C] @ ''docs'' @ [CHR 0x5C] @
            ''Users'' @ [CHR 0x5C] @ ''from'' @ [CHR 0x5C] @ ''x'')
     (''Users'' @ [CHR 0x5C] @ ''from'') (''Users'' @ [CHR 0x5C] @ ''to'') =
   Some (''Users'' @ [CHR 0x5C] @ ''to'' @ [CHR 0x5C] @ ''docs'' @ [CHR 0x5C] @
         ''Users'' @ [CHR 0x5C] @ ''to'' @ [CHR 0x5C] @ ''x'')"
    by (simp add: Replace_def Replace_loop.simps wstring_find_def wstring_replace_def)
qed

text \<open>
  A replacement that contains the needle is not scanned again: the specified
  substitution of \<open>a\<close> by \<open>aa\<close> in \<open>aba\<close> is \<open>aabaa\<close>, and that is what
  the code returns.
\<close>

theorem Replace_left_to_right_witness:
  "''a'' \<noteq> [] \<and> Replace ''aba'' ''a'' ''aa'' = Some (replace_spec ''a'' ''aa'' ''aba'') \<and>
   Replace ''aba'' ''a'' ''aa'' = Some ''aabaa''"
proof -
  have "Replace ''aba'' ''a'' ''aa'' = Some ''aabaa''"
    by (simp add: Replace_def Replace_loop.simps wstring_find_def wstring_replace_def)
  with Replace_left_to_right [of "''a''" "''aba''" "''aa''"] show ?thesis by simp
qed

text \<open>
  Claim C8: for every string \<open>s\<close> that contains no occurrence of the needle, and every
  replacement, \<open>Replace s needle replacement\<close> returns \<open>s\<close> unchanged.
\<close>

theorem Replace_without_occurrence:
  assumes "\<not> sublist needle s"
  shows "Replace s needle replacement = Some s"
proof -
  from assms have "search needle s = None" by (simp add: search_None_iff)
  then have "wstring_find s needle 0 = None" by (simp add: wstring_find_def)
  then show ?thesis unfolding Replace_def by (subst Replace_loop.simps) simp
qed

theorem Replace_without_occurrence_witness:
  "\<not> sublist FROM_NAME ''C:/Users/to'' \<and> Replace ''C:/Users/to'' FROM_NAME TO_NAME = Some ''C:/Users/to''"
proof -
  have "search FROM_NAME ''C:/Users/to'' = None" by (simp add: FROM_NAME_def)
  then have no: "\<not> sublist FROM_NAME ''C:/Users/to''" by (rule search_None_iff [THEN iffD1])
  from Replace_without_occurrence [OF no] no show ?thesis by blast
qed

text \<open>
  Claim C9: \<open>Replace\<close> terminates for every haystack and every replacement when the
  needle is not empty, because every iteration of the loop strictly shortens the part of
  the string behind \<open>pos\<close> that is still to be scanned; with an empty needle the loop
  never ends.
\<close>

theorem Replace_terminates:
  "(needle \<noteq> [] \<longrightarrow> (\<exists>y. Replace haystack needle replacement = Some y)) \<and>
   (needle \<noteq> [] \<and> wstring_find value needle pos = Some p \<longrightarrow>
      length (wstring_replace value p (length needle) replacement) - (p + length replacement)
        < length value - pos) \<and>
   Replace haystack [] replacement = None"
  by (simp add: Replace_replace_spec Replace_empty_needle wstring_find_step)

theorem Replace_terminates_witness:
  "''aa'' \<noteq> [] \<and> (\<exists>y. Replace ''aaa'' ''aa'' ''b'' = Some y) \<and>
   wstring_find ''aaa'' ''aa'' 0 = Some 0 \<and>
   length (wstring_replace ''aaa'' 0 (length ''aa'') ''b'') - (0 + length ''b'') < length ''aaa'' - 0 \<and>
   Replace ''aaa'' [] ''b'' = None"
proof -
  have f: "wstring_find ''aaa'' ''aa'' 0 = Some 0" by (simp add: wstring_find_def)
  from Replace_terminates [of "''aa''" "''aaa''" "''b''" "''aaa''" 0 0] f
  show ?thesis by simp
qed

subsection \<open>Counter and trace\<close>

lemma accepted_le: "accepted trace \<le> length trace"
  by (simp add: accepted_def)

lemma tally_refl: "tally ok count trace count trace"
  by (simp add: tally_def accepted_def)

lemma tally_refused:
  "setRes \<noteq> ERROR_SUCCESS \<Longrightarrow>
   tally False count trace (count + 1) (trace @ [(valName, data, setRes)])"
  by (simp add: tally_def accepted_def)

lemma tally_accepted:
  assumes "tally ok (count + 1) (trace @ [(valName, data, ERROR_SUCCESS)]) count' trace'"
  shows "tally ok count trace count' trace'"
proof -
  from assms obtain new where new: "trace' = (trace @ [(valName, data, ERROR_SUCCESS)]) @ new"
    "count' = count + 1 + int (length new)" "ok \<longrightarrow> accepted new = length new"
    "length new \<le> accepted new + 1"
    unfolding tally_def by blast
  let ?new = "(valName, data, ERROR_SUCCESS) # new"
  have "accepted ?new = accepted new + 1" by (simp add: accepted_def)
  with new have "trace' = trace @ ?new \<and> count' = count + int (length ?new) \<and>
        (ok \<longrightarrow> accepted ?new = length ?new) \<and> length ?new \<le> accepted ?new + 1"
    by simp
  then show ?thesis unfolding tally_def by blast
qed

lemma tally_trans:
  assumes "tally True count trace count1 trace1" and "tally ok count1 trace1 count2 trace2"
  shows "tally ok count trace count2 trace2"
proof -
  from assms(1) obtain n1 where n1: "trace1 = trace @ n1" "count1 = count + int (length n1)"
    "accepted n1 = length n1"
    unfolding tally_def by blast
  from assms(2) obtain n2 where n2: "trace2 = trace1 @ n2" "count2 = count1 + int (length n2)"
    "ok \<longrightarrow> accepted n2 = length n2" "length n2 \<le> accepted n2 + 1"
    unfolding tally_def by blast
  have "accepted (n1 @ n2) = accepted n1 + accepted n2" by (simp add: accepted_def)
  with n1 n2 have "trace2 = trace @ (n1 @ n2) \<and> count2 = count + int (length (n1 @ n2)) \<and>
        (ok \<longrightarrow> accepted (n1 @ n2) = length (n1 @ n2)) \<and>
        length (n1 @ n2) \<le> accepted (n1 @ n2) + 1"
    by simp
  then show ?thesis unfolding tally_def by blast
qed

lemma tally_False: "tally ok count trace count' trace' \<Longrightarrow> tally False count trace count' trace'"
  unfolding tally_def by blast

lemma value_loop_tally:
  "value_loop cb vs n count trace = Some (ok, vs', count', trace') \<Longrightarrow>
   tally ok count trace count' trace'"
proof (induction cb vs n count trace arbitrary: ok vs' count' trace' rule: value_loop.induct)
  case (1 cb vs count trace)
  then show ?case by (simp add: tally_refl)
next
  case (2 cb n count trace)
  then show ?case by (simp add: tally_refl)
next
  case (3 cb v vs n count trace)
  obtain e1 valName where en: "RegEnumValue v MAX_VALUE_NAME = (e1, valName)" by fastforce
  obtain e2 data where ge: "RegGetValue v cb = (e2, data)" by fastforce
  show ?case
  proof (cases "e1 = ERROR_SUCCESS \<and> (e2 = ERROR_SUCCESS \<or> e2 = ERROR_UNSUPPORTED_TYPE)")
    case False
    with "3.prems" en ge show ?thesis by (auto simp: tally_refl split: if_splits)
  next
    case ok12: True
    show ?thesis
    proof (cases "e2 = ERROR_SUCCESS \<and> wcsstr (wcs data) FROM_NAME \<noteq> None")
      case False
      with "3.prems" en ge ok12
      obtain r where r: "value_loop cb vs n count trace = Some r" "(ok, vs', count', trace') =
          (case r of (ok, es, count, trace) \<Rightarrow> (ok, v # es, count, trace))"
        by (auto simp: resume_def split: if_splits)
      obtain rok rvs where "r = (rok, rvs, count', trace')" "ok = rok"
        using r(2) by (cases r) auto
      with r(1) "3.IH"(2) [OF en [symmetric] _ ge [symmetric]] ok12 False
      show ?thesis by auto
    next
      case match: True
      from "3.prems" en ge ok12 match obtain c1 replaced where
        c1: "increment count = Some c1" and rp: "Replace (wcs data) FROM_NAME TO_NAME = Some replaced"
        by (auto split: option.splits)
      from c1 have c1': "c1 = count + 1" by (auto simp: increment_def split: if_splits)
      obtain setRes v' where sr: "RegSetValueEx v replaced = (setRes, v')" by fastforce
      show ?thesis
      proof (cases "setRes = ERROR_SUCCESS")
        case False
        with "3.prems" en ge ok12 match c1 rp sr c1' show ?thesis
          by (auto simp: tally_refused)
      next
        case True
        with "3.prems" en ge ok12 match c1 rp sr
        obtain r where r: "value_loop cb vs n c1 (trace @ [(valName, replaced, setRes)]) = Some r"
          "(ok, vs', count', trace') = (case r of (ok, es, count, trace) \<Rightarrow> (ok, v' # es, count, trace))"
          by (auto simp: resume_def)
        obtain rok rvs where rr: "r = (rok, rvs, count', trace')" "ok = rok"
          using r(2) by (cases r) auto
        have "tally ok c1 (trace @ [(valName, replaced, setRes)]) count' trace'"
          using "3.IH"(1) [OF en [symmetric] _ ge [symmetric] _ _ c1 rp sr [symmetric] _ r(1) [unfolded rr]]
            ok12 match True rr by auto
        with True c1' show ?thesis by (auto intro: tally_accepted)
      qed
    qed
  qed
qed

subsection \<open>One iteration of the first loop\<close>

declare iter.simps [simp del]

lemma isValid_RegKey_new: "isValid (RegKey_new e nm d) \<longleftrightarrow> openFault e = ERROR_SUCCESS"
  by (simp add: isValid_def RegKey_new_def RegOpenKeyEx_def getInfo_def)

lemma getErrorCode_RegKey_new: "getErrorCode (RegKey_new e nm d) = openFault e"
  by (simp add: getErrorCode_def RegKey_new_def RegOpenKeyEx_def getInfo_def)

lemma RegEnumKeyEx_name:
  "RegEnumKeyEx e n = (ERROR_SUCCESS, nm) \<Longrightarrow> nm = subkeyName e"
  by (auto simp: RegEnumKeyEx_def ERROR_MORE_DATA_def ERROR_SUCCESS_def split: if_splits)

text \<open>The four ways in which one iteration of the first loop ends.\<close>

lemma subkey_loop_enum_fails:
  "fst (RegEnumKeyEx e MAX_KEY_LENGTH) \<noteq> ERROR_SUCCESS \<Longrightarrow>
   subkey_loop d (e # es) (Suc n) count trace = Some (False, e # es, count, trace)"
  by (cases "RegEnumKeyEx e MAX_KEY_LENGTH") simp

lemma subkey_loop_open_fatal:
  "fst (RegEnumKeyEx e MAX_KEY_LENGTH) = ERROR_SUCCESS \<Longrightarrow>
   openFault e \<noteq> ERROR_SUCCESS \<Longrightarrow> openFault e \<noteq> ERROR_FILE_NOT_FOUND \<Longrightarrow>
   openFault e \<noteq> ERROR_ACCESS_DENIED \<Longrightarrow>
   subkey_loop d (e # es) (Suc n) count trace = Some (False, e # es, count, trace)"
  by (cases "RegEnumKeyEx e MAX_KEY_LENGTH")
    (simp add: isValid_RegKey_new getErrorCode_RegKey_new)

lemma subkey_loop_open_skipped:
  "fst (RegEnumKeyEx e MAX_KEY_LENGTH) = ERROR_SUCCESS \<Longrightarrow>
   openFault e = ERROR_FILE_NOT_FOUND \<or> openFault e = ERROR_ACCESS_DENIED \<Longrightarrow>
   subkey_loop d (e # es) (Suc n) count trace = resume e (subkey_loop d es n count trace)"
  by (cases "RegEnumKeyEx e MAX_KEY_LENGTH")
    (auto simp: isValid_RegKey_new getErrorCode_RegKey_new Let_def
      ERROR_SUCCESS_def ERROR_FILE_NOT_FOUND_def ERROR_ACCESS_DENIED_def)

lemma subkey_loop_recurse:
  "fst (RegEnumKeyEx e MAX_KEY_LENGTH) = ERROR_SUCCESS \<Longrightarrow> openFault e = ERROR_SUCCESS \<Longrightarrow>
   subkey_loop d (e # es) (Suc n) count trace =
     (case iter (RegKey_new e (subkeyName e) (d + 1)) count trace of
        None \<Rightarrow> None
      | Some (ok, k', count', trace') \<Rightarrow>
          if \<not> ok
          then Some (False, Subkey (enumKeyFault e) (subkeyName e) (openFault e) k' # es,
                 count', trace')
          else resume (Subkey (enumKeyFault e) (subkeyName e) (openFault e) k')
                 (subkey_loop d es n count' trace'))"
  by (cases "RegEnumKeyEx e MAX_KEY_LENGTH")
    (auto simp: isValid_RegKey_new getErrorCode_RegKey_new Let_def dest!: RegEnumKeyEx_name)

declare subkey_loop.simps(3) [simp del]

lemma resume_Some:
  "resume e r = Some (ok, es', count', trace') \<longleftrightarrow>
   (\<exists>es''. r = Some (ok, es'', count', trace') \<and> es' = e # es'')"
  by (cases r) (auto simp: resume_def)

lemma iter_tally:
  "iter keyHolder count trace = Some (ok, k', count', trace') \<Longrightarrow>
   tally ok count trace count' trace'"
  and subkey_loop_tally:
  "subkey_loop d es n count trace = Some (ok, es', count', trace') \<Longrightarrow>
   tally ok count trace count' trace'"
proof (induction keyHolder count trace and d es n count trace
    arbitrary: ok k' count' trace' and ok es' count' trace' rule: iter_subkey_loop.induct)
  case (1 keyHolder count trace)
  from "1.prems" obtain k md where k: "getKey keyHolder = Some k" "info keyHolder = Some md"
    by (auto simp: iter.simps split: option.splits)
  from "1.prems" k obtain ok1 sks count1 trace1 where
    s: "subkey_loop (getDepth keyHolder) (subkeys k) (subkeyCount md) count trace =
        Some (ok1, sks, count1, trace1)"
    by (auto simp: iter.simps split: option.splits)
  from "1.IH" [OF k s] have t1: "tally ok1 count trace count1 trace1" .
  show ?case
  proof (cases ok1)
    case False
    with "1.prems" k s t1 show ?thesis by (auto simp: iter.simps)
  next
    case True
    with "1.prems" k s obtain vs where
      "value_loop (longestValueData md * 2 + 2) (vals k) (valueCount md) count1 trace1 =
         Some (ok, vs, count', trace')"
      by (auto simp: iter.simps split: option.splits)
    from value_loop_tally [OF this] t1 True show ?thesis by (auto intro: tally_trans)
  qed
next
  case (2 d es count trace)
  then show ?case by (simp add: tally_refl)
next
  case (3 d n count trace)
  then show ?case by (simp add: tally_refl)
next
  case (4 d e es n count trace)
  obtain err nm where en: "RegEnumKeyEx e MAX_KEY_LENGTH = (err, nm)" by fastforce
  let ?sub = "RegKey_new e nm (d + 1)"
  show ?case
  proof (cases "err = ERROR_SUCCESS")
    case False
    with "4.prems" en show ?thesis by (simp add: subkey_loop_enum_fails tally_refl)
  next
    case enum_ok: True
    with en have nm: "nm = subkeyName e" by (auto dest: RegEnumKeyEx_name)
    show ?thesis
    proof (cases "openFault e = ERROR_SUCCESS")
      case True
      then have valid: "isValid ?sub" by (simp add: isValid_RegKey_new)
      from "4.prems" en enum_ok True nm obtain ok1 k1 count1 trace1 where
        it: "iter ?sub count trace = Some (ok1, k1, count1, trace1)"
        by (auto simp: subkey_loop_recurse split: option.splits)
      from "4.IH"(1) [OF en [symmetric] _ refl _ valid it] enum_ok valid
      have t1: "tally ok1 count trace count1 trace1" by simp
      show ?thesis
      proof (cases ok1)
        case False
        with "4.prems" en enum_ok True nm it t1 show ?thesis
          by (auto simp: subkey_loop_recurse)
      next
        case ok1: True
        with "4.prems" en enum_ok True nm it obtain es'' where
          rest: "subkey_loop d es n count1 trace1 = Some (ok, es'', count', trace')"
          by (auto simp: subkey_loop_recurse resume_Some)
        from "4.IH"(2) [OF en [symmetric] _ refl _ valid it refl refl refl _ rest] enum_ok valid ok1
        have "tally ok count1 trace1 count' trace'" by simp
        with t1 ok1 show ?thesis by (auto intro: tally_trans)
      qed
    next
      case False
      then have invalid: "\<not> isValid ?sub" by (simp add: isValid_RegKey_new)
      show ?thesis
      proof (cases "openFault e = ERROR_FILE_NOT_FOUND \<or> openFault e = ERROR_ACCESS_DENIED")
        case True
        with "4.prems" en enum_ok obtain es'' where
          rest: "subkey_loop d es n count trace = Some (ok, es'', count', trace')"
          by (auto simp: subkey_loop_open_skipped resume_Some)
        from "4.IH"(3) [OF en [symmetric] _ refl _ invalid rest] enum_ok True
        show ?thesis by (auto simp: getErrorCode_RegKey_new)
      next
        case fatal: False
        with "4.prems" en enum_ok False show ?thesis
          by (simp add: subkey_loop_open_fatal tally_refl)
      qed
    qed
  qed
qed

subsection \<open>Fatal opens and fetches\<close>

lemma fst_RegOpenKeyEx: "fst (RegOpenKeyEx e) = openFault e"
  by (simp add: RegOpenKeyEx_def)

lemma key_RegKey_new:
  "openFault e = ERROR_SUCCESS \<Longrightarrow> getKey (RegKey_new e nm d) = Some (target e)"
  by (simp add: getKey_def RegKey_new_def RegOpenKeyEx_def getInfo_def)

lemma info_RegKey_new:
  "info (RegKey_new e nm d) =
     (if openFault e = ERROR_SUCCESS then Some (RegQueryInfoKey (target e)) else None)"
  by (simp add: RegKey_new_def RegOpenKeyEx_def getInfo_def)

lemma iter_no_fatal_open:
  "iter keyHolder count trace = Some (True, k', count', trace') \<Longrightarrow>
   getKey keyHolder = Some k \<Longrightarrow> info keyHolder = Some md \<Longrightarrow>
   length (subkeys k) \<le> subkeyCount md \<Longrightarrow> \<not> fatal_open k"
  and subkey_loop_no_fatal_open:
  "subkey_loop d es n count trace = Some (True, es', count', trace') \<Longrightarrow>
   length es \<le> n \<Longrightarrow> \<not> fatal_open_list es"
proof (induction keyHolder count trace and d es n count trace
    arbitrary: k md k' count' trace' and es' count' trace' rule: iter_subkey_loop.induct)
  case (1 keyHolder count trace)
  from "1.prems" obtain sks count1 trace1 where
    s: "subkey_loop (getDepth keyHolder) (subkeys k) (subkeyCount md) count trace =
        Some (True, sks, count1, trace1)"
    by (auto simp: iter.simps split: option.splits if_splits)
  from "1.IH" [OF "1.prems"(2,3) s "1.prems"(4)] show ?case by (cases k) simp
next
  case (2 d es count trace)
  then show ?case by simp
next
  case (3 d n count trace)
  then show ?case by simp
next
  case (4 d e es n count trace)
  obtain err nm where en: "RegEnumKeyEx e MAX_KEY_LENGTH = (err, nm)" by fastforce
  let ?sub = "RegKey_new e nm (d + 1)"
  from "4.prems"(2) have len: "length es \<le> n" by simp
  have enum_ok: "err = ERROR_SUCCESS"
  proof (rule ccontr)
    assume "err \<noteq> ERROR_SUCCESS"
    with "4.prems"(1) en show False by (simp add: subkey_loop_enum_fails)
  qed
  with en have nm: "nm = subkeyName e" by (auto dest: RegEnumKeyEx_name)
  show ?case
  proof (cases "openFault e = ERROR_SUCCESS")
    case True
    then have valid: "isValid ?sub" by (simp add: isValid_RegKey_new)
    from "4.prems"(1) en enum_ok True nm obtain k1 count1 trace1 es'' where
      it: "iter ?sub count trace = Some (True, k1, count1, trace1)" and
      rest: "subkey_loop d es n count1 trace1 = Some (True, es'', count', trace')"
      by (auto simp: subkey_loop_recurse resume_Some split: option.splits if_splits)
    have "\<not> fatal_open (target e)"
      using "4.IH"(1) [OF en [symmetric] _ refl _ valid it key_RegKey_new [OF True]] enum_ok valid True
      by (simp add: info_RegKey_new RegQueryInfoKey_def)
    moreover have "\<not> fatal_open_list es"
      using "4.IH"(2) [OF en [symmetric] _ refl _ valid it refl refl refl _ rest len] enum_ok valid
      by simp
    ultimately show ?thesis using True by (simp add: fst_RegOpenKeyEx)
  next
    case False
    then have invalid: "\<not> isValid ?sub" by (simp add: isValid_RegKey_new)
    show ?thesis
    proof (cases "openFault e = ERROR_FILE_NOT_FOUND \<or> openFault e = ERROR_ACCESS_DENIED")
      case True
      with "4.prems"(1) en enum_ok obtain es'' where
        rest: "subkey_loop d es n count trace = Some (True, es'', count', trace')"
        by (auto simp: subkey_loop_open_skipped resume_Some)
      from "4.IH"(3) [OF en [symmetric] _ refl _ invalid rest len] enum_ok True False
      show ?thesis by (auto simp: getErrorCode_RegKey_new fst_RegOpenKeyEx)
    next
      case fatal: False
      with "4.prems"(1) en enum_ok False show ?thesis
        by (simp add: subkey_loop_open_fatal)
    qed
  qed
qed

text \<open>The three ways in which one iteration of the second loop ends without a match.\<close>

lemma value_loop_enum_fails:
  "fst (RegEnumValue v MAX_VALUE_NAME) \<noteq> ERROR_SUCCESS \<Longrightarrow>
   value_loop cb (v # vs) (Suc n) count trace = Some (False, v # vs, count, trace)"
  by (cases "RegEnumValue v MAX_VALUE_NAME") simp

lemma value_loop_get_fatal:
  "fst (RegEnumValue v MAX_VALUE_NAME) = ERROR_SUCCESS \<Longrightarrow>
   fst (RegGetValue v cb) \<noteq> ERROR_SUCCESS \<Longrightarrow>
   fst (RegGetValue v cb) \<noteq> ERROR_UNSUPPORTED_TYPE \<Longrightarrow>
   value_loop cb (v # vs) (Suc n) count trace = Some (False, v # vs, count, trace)"
  by (cases "RegEnumValue v MAX_VALUE_NAME"; cases "RegGetValue v cb") simp

lemma value_loop_unsupported:
  "fst (RegEnumValue v MAX_VALUE_NAME) = ERROR_SUCCESS \<Longrightarrow>
   fst (RegGetValue v cb) = ERROR_UNSUPPORTED_TYPE \<Longrightarrow>
   value_loop cb (v # vs) (Suc n) count trace = resume v (value_loop cb vs n count trace)"
  by (cases "RegEnumValue v MAX_VALUE_NAME"; cases "RegGetValue v cb")
    (simp add: ERROR_UNSUPPORTED_TYPE_def ERROR_SUCCESS_def)

lemma value_loop_fetches:
  "value_loop cb vs n count trace = Some (True, vs', count', trace') \<Longrightarrow>
   v \<in> set (take n vs) \<Longrightarrow>
   fst (RegGetValue v cb) = ERROR_SUCCESS \<or> fst (RegGetValue v cb) = ERROR_UNSUPPORTED_TYPE"
proof (induction cb vs n count trace arbitrary: vs' count' trace' rule: value_loop.induct)
  case (1 cb vs count trace)
  then show ?case by simp
next
  case (2 cb n count trace)
  then show ?case by simp
next
  case (3 cb w vs n count trace)
  obtain e1 valName where en: "RegEnumValue w MAX_VALUE_NAME = (e1, valName)" by fastforce
  obtain e2 data where ge: "RegGetValue w cb = (e2, data)" by fastforce
  from "3.prems"(1) en ge have ok12: "e1 = ERROR_SUCCESS"
    "e2 = ERROR_SUCCESS \<or> e2 = ERROR_UNSUPPORTED_TYPE"
    by (auto split: if_splits)
  show ?case
  proof (cases "v = w")
    case True
    with ge ok12 show ?thesis by auto
  next
    case False
    with "3.prems"(2) have v: "v \<in> set (take n vs)" by simp
    show ?thesis
    proof (cases "e2 = ERROR_SUCCESS \<and> wcsstr (wcs data) FROM_NAME \<noteq> None")
      case False
      with "3.prems"(1) en ge ok12 obtain vs'' where
        "value_loop cb vs n count trace = Some (True, vs'', count', trace')"
        by (auto simp: resume_Some split: if_splits)
      from "3.IH"(2) [OF en [symmetric] _ ge [symmetric] _ _ this v] ok12 False
      show ?thesis by auto
    next
      case match: True
      from "3.prems"(1) en ge ok12 match obtain c1 replaced where
        c1: "increment count = Some c1" and rp: "Replace (wcs data) FROM_NAME TO_NAME = Some replaced"
        by (auto split: option.splits)
      obtain setRes w' where sr: "RegSetValueEx w replaced = (setRes, w')" by fastforce
      from "3.prems"(1) en ge ok12 match c1 rp sr obtain vs'' where
        sok: "setRes = ERROR_SUCCESS" and
        "value_loop cb vs n c1 (trace @ [(valName, replaced, setRes)]) = Some (True, vs'', count', trace')"
        by (auto simp: resume_Some split: if_splits)
      from "3.IH"(1) [OF en [symmetric] _ ge [symmetric] _ _ c1 rp sr [symmetric] _ this(2) v]
        ok12 match sok
      show ?thesis by auto
    qed
  qed
qed

subsection \<open>The walk returns\<close>

lemma FROM_NAME_nonempty: "FROM_NAME \<noteq> []"
  by (simp add: FROM_NAME_def)

lemma RegEnumValue_name:
  "RegEnumValue v n = (ERROR_SUCCESS, nm) \<Longrightarrow> nm = valueName v"
  by (auto simp: RegEnumValue_def ERROR_MORE_DATA_def ERROR_SUCCESS_def split: if_splits)

lemma value_loop_no_match:
  "fst (RegEnumValue v MAX_VALUE_NAME) = ERROR_SUCCESS \<Longrightarrow>
   RegGetValue v cb = (ERROR_SUCCESS, data) \<Longrightarrow> wcsstr (wcs data) FROM_NAME = None \<Longrightarrow>
   value_loop cb (v # vs) (Suc n) count trace = resume v (value_loop cb vs n count trace)"
  by (cases "RegEnumValue v MAX_VALUE_NAME") simp

lemma value_loop_match:
  "fst (RegEnumValue v MAX_VALUE_NAME) = ERROR_SUCCESS \<Longrightarrow>
   RegGetValue v cb = (ERROR_SUCCESS, data) \<Longrightarrow> wcsstr (wcs data) FROM_NAME \<noteq> None \<Longrightarrow>
   count < INT_MAX \<Longrightarrow>
   value_loop cb (v # vs) (Suc n) count trace =
     (case RegSetValueEx v (replace_spec FROM_NAME TO_NAME (wcs data)) of (setRes, v') \<Rightarrow>
        if setRes \<noteq> ERROR_SUCCESS
        then Some (False, v' # vs, count + 1,
               trace @ [(valueName v, replace_spec FROM_NAME TO_NAME (wcs data), setRes)])
        else resume v' (value_loop cb vs n (count + 1)
               (trace @ [(valueName v, replace_spec FROM_NAME TO_NAME (wcs data), setRes)])))"
  by (cases "RegEnumValue v MAX_VALUE_NAME")
    (auto simp: increment_def Replace_replace_spec [OF FROM_NAME_nonempty]
      dest!: RegEnumValue_name split: prod.splits)

declare value_loop.simps(3) [simp del]

lemma resume_returns:
  "resume e r = Some x \<longleftrightarrow> (\<exists>ok es count trace. r = Some (ok, es, count, trace) \<and>
     x = (ok, e # es, count, trace))"
  by (cases r) (auto simp: resume_def)

lemma value_loop_returns:
  "count + int (length vs) \<le> INT_MAX \<Longrightarrow>
   \<exists>ok vs' count' trace'. value_loop cb vs n count trace = Some (ok, vs', count', trace') \<and>
      count' \<le> count + int (length vs)"
proof (induction vs arbitrary: n count trace)
  case Nil
  then show ?case by (cases n) auto
next
  case (Cons v vs)
  show ?case
  proof (cases n)
    case 0
    then show ?thesis by auto
  next
    case (Suc m)
    obtain e1 valName where en: "RegEnumValue v MAX_VALUE_NAME = (e1, valName)" by fastforce
    obtain e2 data where ge: "RegGetValue v cb = (e2, data)" by fastforce
    from Cons.prems have b0: "count + int (length vs) \<le> INT_MAX" by simp
    from Cons.IH [OF b0, of m trace] obtain ok0 vs0 c0 t0 where
      r0: "value_loop cb vs m count trace = Some (ok0, vs0, c0, t0)" "c0 \<le> count + int (length vs)"
      by blast
    consider (enum) "e1 \<noteq> ERROR_SUCCESS"
      | (fatal) "e1 = ERROR_SUCCESS" "e2 \<noteq> ERROR_SUCCESS" "e2 \<noteq> ERROR_UNSUPPORTED_TYPE"
      | (unsupported) "e1 = ERROR_SUCCESS" "e2 = ERROR_UNSUPPORTED_TYPE"
      | (plain) "e1 = ERROR_SUCCESS" "e2 = ERROR_SUCCESS" "wcsstr (wcs data) FROM_NAME = None"
      | (match) "e1 = ERROR_SUCCESS" "e2 = ERROR_SUCCESS" "wcsstr (wcs data) FROM_NAME \<noteq> None"
      by blast
    then show ?thesis
    proof cases
      case enum
      with en Suc show ?thesis by (auto simp: value_loop_enum_fails)
    next
      case fatal
      with en ge Suc show ?thesis by (auto simp: value_loop_get_fatal)
    next
      case unsupported
      with en ge Suc r0 show ?thesis by (auto simp: value_loop_unsupported resume_def)
    next
      case plain
      with en ge Suc r0 show ?thesis by (auto simp: value_loop_no_match resume_def)
    next
      case match
      from Cons.prems have lt: "count < INT_MAX" and b1: "count + 1 + int (length vs) \<le> INT_MAX"
        by simp_all
      let ?new = "replace_spec FROM_NAME TO_NAME (wcs data)"
      obtain setRes v' where sr: "RegSetValueEx v ?new = (setRes, v')" by fastforce
      from Cons.IH [OF b1, of m "trace @ [(valueName v, ?new, setRes)]"] obtain ok1 vs1 c1 t1 where
        r1: "value_loop cb vs m (count + 1) (trace @ [(valueName v, ?new, setRes)]) =
             Some (ok1, vs1, c1, t1)" "c1 \<le> count + 1 + int (length vs)"
        by blast
      from match en ge lt have
        "value_loop cb (v # vs) (Suc m) count trace =
          (if setRes \<noteq> ERROR_SUCCESS
           then Some (False, v' # vs, count + 1, trace @ [(valueName v, ?new, setRes)])
           else resume v' (value_loop cb vs m (count + 1) (trace @ [(valueName v, ?new, setRes)])))"
        by (simp add: value_loop_match sr)
      with r1 Suc show ?thesis by (auto simp: resume_def)
    qed
  qed
qed

lemma iter_returns_bounded:
  "getKey keyHolder = Some k \<Longrightarrow> info keyHolder = Some md \<Longrightarrow>
   count + int (total_values k) \<le> INT_MAX \<Longrightarrow>
   \<exists>ok k' count' trace'. iter keyHolder count trace = Some (ok, k', count', trace') \<and>
      count' \<le> count + int (total_values k)"
  and subkey_loop_returns_bounded:
  "count + int (total_values_list es) \<le> INT_MAX \<Longrightarrow>
   \<exists>ok es' count' trace'. subkey_loop d es n count trace = Some (ok, es', count', trace') \<and>
      count' \<le> count + int (total_values_list es)"
proof (induction keyHolder count trace and d es n count trace
    arbitrary: k md rule: iter_subkey_loop.induct)
  case (1 keyHolder count trace)
  obtain sks vs where k: "k = Key sks vs" by (cases k)
  from "1.prems"(3) k have "count + int (total_values_list (subkeys k)) \<le> INT_MAX" by simp
  from "1.IH" [OF "1.prems"(1,2) this] k obtain ok1 sks1 c1 t1 where
    s: "subkey_loop (getDepth keyHolder) sks (subkeyCount md) count trace = Some (ok1, sks1, c1, t1)"
    and c1: "c1 \<le> count + int (total_values_list sks)"
    by auto
  show ?case
  proof (cases ok1)
    case False
    with "1.prems" k s c1 show ?thesis by (auto simp: iter.simps)
  next
    case True
    from c1 "1.prems"(3) k have "c1 + int (length vs) \<le> INT_MAX" by simp
    from value_loop_returns [OF this, of "longestValueData md * 2 + 2" "valueCount md" t1]
    obtain ok2 vs2 c2 t2 where
      "value_loop (longestValueData md * 2 + 2) vs (valueCount md) c1 t1 = Some (ok2, vs2, c2, t2)"
      "c2 \<le> c1 + int (length vs)"
      by blast
    with "1.prems" k s c1 True show ?thesis by (auto simp: iter.simps)
  qed
next
  case (2 d es count trace)
  then show ?case by auto
next
  case (3 d n count trace)
  then show ?case by auto
next
  case (4 d e es n count trace)
  obtain err nm where en: "RegEnumKeyEx e MAX_KEY_LENGTH = (err, nm)" by fastforce
  let ?sub = "RegKey_new e nm (d + 1)"
  from "4.prems" have b0: "count + int (total_values_list es) \<le> INT_MAX" by simp
  show ?case
  proof (cases "err = ERROR_SUCCESS")
    case False
    with en show ?thesis by (auto simp: subkey_loop_enum_fails)
  next
    case enum_ok: True
    with en have nm: "nm = subkeyName e" by (auto dest: RegEnumKeyEx_name)
    show ?thesis
    proof (cases "openFault e = ERROR_SUCCESS")
      case True
      then have valid: "isValid ?sub" by (simp add: isValid_RegKey_new)
      from "4.prems" have "count + int (total_values (target e)) \<le> INT_MAX" by simp
      from "4.IH"(1) [OF en [symmetric] _ refl _ valid key_RegKey_new [OF True] _ this]
        enum_ok valid True
      obtain ok1 k1 c1 t1 where
        it: "iter ?sub count trace = Some (ok1, k1, c1, t1)" and
        c1: "c1 \<le> count + int (total_values (target e))"
        by (auto simp: info_RegKey_new)
      show ?thesis
      proof (cases ok1)
        case False
        with en enum_ok True nm it c1 show ?thesis by (auto simp: subkey_loop_recurse)
      next
        case ok1: True
        from c1 "4.prems" have "c1 + int (total_values_list es) \<le> INT_MAX" by simp
        from "4.IH"(2) [OF en [symmetric] _ refl _ valid it refl refl refl _ this] enum_ok valid ok1
        obtain ok2 es2 c2 t2 where
          "subkey_loop d es n c1 t1 = Some (ok2, es2, c2, t2)"
          "c2 \<le> c1 + int (total_values_list es)"
          by auto
        with en enum_ok True nm it c1 ok1 show ?thesis by (auto simp: subkey_loop_recurse resume_def)
      qed
    next
      case False
      then have invalid: "\<not> isValid ?sub" by (simp add: isValid_RegKey_new)
      show ?thesis
      proof (cases "openFault e = ERROR_FILE_NOT_FOUND \<or> openFault e = ERROR_ACCESS_DENIED")
        case True
        from "4.IH"(3) [OF en [symmetric] _ refl _ invalid b0] enum_ok True
        obtain ok2 es2 c2 t2 where
          "subkey_loop d es n count trace = Some (ok2, es2, c2, t2)"
          "c2 \<le> count + int (total_values_list es)"
          by (auto simp: getErrorCode_RegKey_new)
        with en enum_ok True show ?thesis by (auto simp: subkey_loop_open_skipped resume_def)
      next
        case fatal: False
        with en enum_ok False show ?thesis by (auto simp: subkey_loop_open_fatal)
      qed
    qed
  qed
qed

subsection \<open>A failure aborts the enclosing walk\<close>

lemma subkey_loop_child_fails:
  assumes "fst (RegEnumKeyEx e MAX_KEY_LENGTH) = ERROR_SUCCESS"
    and "fst (RegOpenKeyEx e) = ERROR_SUCCESS"
    and "iter (RegKey_new e (subkeyName e) (d + 1)) count trace = Some (False, k1, count1, trace1)"
  shows "subkey_loop d (e # es) (Suc n) count trace =
     Some (False, Subkey (enumKeyFault e) (subkeyName e) (openFault e) k1 # es, count1, trace1)"
  using assms by (simp add: subkey_loop_recurse fst_RegOpenKeyEx)

lemma iter_subkeys_fail:
  assumes "getKey keyHolder = Some k" and "info keyHolder = Some md"
    and "subkey_loop (getDepth keyHolder) (subkeys k) (subkeyCount md) count trace =
      Some (False, sks, count1, trace1)"
  shows "iter keyHolder count trace = Some (False, Key sks (vals k), count1, trace1)"
  using assms by (simp add: iter.simps)

lemma total_values_subkeys: "total_values_list (subkeys k) \<le> total_values k"
  by (cases k) simp

lemma fatal_open_subkeys: "fatal_open k \<longleftrightarrow> fatal_open_list (subkeys k)"
  by (cases k) simp

lemma iter_fatal_open:
  assumes "getKey keyHolder = Some k" and "info keyHolder = Some (RegQueryInfoKey k)"
    and "fatal_open k" and "count + int (total_values k) \<le> INT_MAX"
  shows "\<exists>sks count' trace'.
    subkey_loop (getDepth keyHolder) (subkeys k) (length (subkeys k)) count trace =
      Some (False, sks, count', trace') \<and>
    iter keyHolder count trace = Some (False, Key sks (vals k), count', trace')"
proof -
  from assms(4) total_values_subkeys [of k]
  have "count + int (total_values_list (subkeys k)) \<le> INT_MAX" by simp
  from subkey_loop_returns_bounded [OF this, of "getDepth keyHolder" "length (subkeys k)" trace]
  obtain ok sks count' trace' where
    s: "subkey_loop (getDepth keyHolder) (subkeys k) (length (subkeys k)) count trace =
      Some (ok, sks, count', trace')"
    by blast
  have "\<not> ok"
  proof
    assume ok
    with s subkey_loop_no_fatal_open [of "getDepth keyHolder" "subkeys k" "length (subkeys k)"
        count trace sks count' trace'] assms(3)
    show False by (simp add: fatal_open_subkeys)
  qed
  with s have s': "subkey_loop (getDepth keyHolder) (subkeys k)
      (subkeyCount (RegQueryInfoKey k)) count trace = Some (False, sks, count', trace')"
    by (simp add: RegQueryInfoKey_def)
  from iter_subkeys_fail [OF assms(1,2) s'] s \<open>\<not> ok\<close> show ?thesis by auto
qed

lemma getDepth_RegKey_new: "getDepth (RegKey_new e nm d) = d"
  by (simp add: getDepth_def RegKey_new_def RegOpenKeyEx_def getInfo_def)

lemma iter_handle_cong:
  "getKey h1 = getKey h2 \<Longrightarrow> info h1 = info h2 \<Longrightarrow> getDepth h1 = getDepth h2 \<Longrightarrow>
   iter h1 count trace = iter h2 count trace"
  by (auto simp: iter.simps split: option.splits)

lemma before_fatal_list_clean: "\<not> fatal_open_list es \<Longrightarrow> before_fatal_list es = es"
  by (induction es) auto

lemma before_fatal_clean: "\<not> fatal_open k \<Longrightarrow> before_fatal k = k"
  by (cases k) simp

lemma RegEnumKeyEx_fields:
  "RegEnumKeyEx (Subkey (enumKeyFault e) (subkeyName e) (openFault e) k) n = RegEnumKeyEx e n"
  by (simp add: RegEnumKeyEx_def)

lemma iter_before_fatal:
  "iter keyHolder count trace = Some (ok, k', count', trace') \<Longrightarrow>
   getKey keyHolder = Some k \<Longrightarrow> info keyHolder = Some (RegQueryInfoKey k) \<Longrightarrow>
   getKey h2 = Some (before_fatal k) \<Longrightarrow> info h2 = Some (RegQueryInfoKey (before_fatal k)) \<Longrightarrow>
   getDepth h2 = getDepth keyHolder \<Longrightarrow>
   \<exists>ok2 k2. iter h2 count trace = Some (ok2, k2, count', trace')"
  and subkey_loop_before_fatal:
  "subkey_loop d es n count trace = Some (ok, es', count', trace') \<Longrightarrow> length es \<le> n \<Longrightarrow>
   \<exists>ok2 es2. subkey_loop d (before_fatal_list es) (length (before_fatal_list es)) count trace =
      Some (ok2, es2, count', trace')"
proof (induction keyHolder count trace and d es n count trace
    arbitrary: ok k' count' trace' k h2 and ok es' count' trace' rule: iter_subkey_loop.induct)
  case (1 keyHolder count trace)
  let ?md = "RegQueryInfoKey k"
  show ?case
  proof (cases "fatal_open k")
    case False
    then have "before_fatal k = k" by (rule before_fatal_clean)
    with "1.prems" have "iter h2 count trace = iter keyHolder count trace"
      by (intro iter_handle_cong) simp_all
    with "1.prems"(1) show ?thesis by simp
  next
    case True
    obtain sks vs where k: "k = Key sks vs" by (cases k)
    with True have fl: "fatal_open_list sks" by simp
    from "1.prems"(1,2,3) k obtain ok1 sks1 count1 trace1 where
      s: "subkey_loop (getDepth keyHolder) sks (length sks) count trace =
          Some (ok1, sks1, count1, trace1)"
      by (auto simp: iter.simps RegQueryInfoKey_def split: option.splits)
    have nok: "\<not> ok1"
    proof
      assume ok1
      with s subkey_loop_no_fatal_open [of "getDepth keyHolder" sks "length sks" count trace
          sks1 count1 trace1] fl
      show False by simp
    qed
    with "1.prems"(1,2,3) k s have res: "count' = count1" "trace' = trace1"
      by (auto simp: iter.simps RegQueryInfoKey_def)
    have md: "subkeyCount ?md = length sks" using k by (simp add: RegQueryInfoKey_def)
    from "1.IH" [OF "1.prems"(2,3), of ok1 sks1 count1 trace1] s k md
    obtain ok2 es2 where
      t: "subkey_loop (getDepth keyHolder) (before_fatal_list sks)
            (length (before_fatal_list sks)) count trace = Some (ok2, es2, count1, trace1)"
      by auto
    have bk: "before_fatal k = Key (before_fatal_list sks) []" using k fl by simp
    from "1.prems"(4,5,6) bk t res show ?thesis
      by (cases ok2) (auto simp: iter.simps RegQueryInfoKey_def)
  qed
next
  case (2 d es count trace)
  then show ?case by auto
next
  case (3 d n count trace)
  then show ?case by auto
next
  case (4 d e es n count trace)
  obtain err nm where en: "RegEnumKeyEx e MAX_KEY_LENGTH = (err, nm)" by fastforce
  let ?sub = "RegKey_new e nm (d + 1)"
  let ?cut = "Subkey (enumKeyFault e) (subkeyName e) (openFault e) (before_fatal (target e))"
  from "4.prems"(2) have len: "length es \<le> n" by simp
  show ?case
  proof (cases "err = ERROR_SUCCESS")
    case False
    with "4.prems"(1) en have res: "count' = count" "trace' = trace"
      by (simp_all add: subkey_loop_enum_fails)
    from False en have f: "fst (RegEnumKeyEx e MAX_KEY_LENGTH) \<noteq> ERROR_SUCCESS"
      and f': "fst (RegEnumKeyEx ?cut MAX_KEY_LENGTH) \<noteq> ERROR_SUCCESS"
      by (simp_all add: RegEnumKeyEx_fields)
    from res f f' show ?thesis
      by (auto simp: subkey_loop_enum_fails)
  next
    case enum_ok: True
    with en have nm: "nm = subkeyName e" by (auto dest: RegEnumKeyEx_name)
    from enum_ok en have eo: "fst (RegEnumKeyEx e MAX_KEY_LENGTH) = ERROR_SUCCESS"
      and eo': "fst (RegEnumKeyEx ?cut MAX_KEY_LENGTH) = ERROR_SUCCESS"
      by (simp_all add: RegEnumKeyEx_fields)
    show ?thesis
    proof (cases "openFault e = ERROR_SUCCESS")
      case True
      then have valid: "isValid ?sub" by (simp add: isValid_RegKey_new)
      from "4.prems"(1) en enum_ok True nm obtain ok1 k1 count1 trace1 where
        it: "iter ?sub count trace = Some (ok1, k1, count1, trace1)"
        by (auto simp: subkey_loop_recurse split: option.splits)
      show ?thesis
      proof (cases "fatal_open (target e)")
        case fatal: True
        have nok: "\<not> ok1"
        proof
          assume ok1
          with it iter_no_fatal_open [of ?sub count trace k1 count1 trace1 "target e"
              "RegQueryInfoKey (target e)"] True fatal
          show False by (simp add: key_RegKey_new info_RegKey_new RegQueryInfoKey_def)
        qed
        with "4.prems"(1) eo True nm it have res: "count' = count1" "trace' = trace1"
          by (simp_all add: subkey_loop_recurse)
        let ?h2 = "RegKey_new ?cut (subkeyName ?cut) (d + 1)"
        have si: "info ?sub = Some (RegQueryInfoKey (target e))"
          using True by (simp add: info_RegKey_new)
        have h2k: "getKey ?h2 = Some (before_fatal (target e))"
          using True by (simp add: key_RegKey_new)
        have h2i: "info ?h2 = Some (RegQueryInfoKey (before_fatal (target e)))"
          using True by (simp add: info_RegKey_new)
        have h2d: "getDepth ?h2 = getDepth ?sub"
          by (simp add: getDepth_RegKey_new)
        have "\<exists>ok2 k2. iter ?h2 count trace = Some (ok2, k2, count1, trace1)"
          using "4.IH"(1) [OF en [symmetric] _ refl _ valid it key_RegKey_new [OF True] si
              h2k h2i h2d] enum_ok valid
          by simp
        then obtain ok2 k2 where
          it2: "iter (RegKey_new ?cut (subkeyName ?cut) (d + 1)) count trace =
            Some (ok2, k2, count1, trace1)"
          by blast
        have bl: "before_fatal_list (e # es) = [?cut]"
          using True fatal by (simp add: fst_RegOpenKeyEx)
        have oc: "openFault ?cut = ERROR_SUCCESS" using True by simp
        have "\<exists>ok3 es3. subkey_loop d [?cut] (Suc 0) count trace = Some (ok3, es3, count1, trace1)"
          unfolding subkey_loop_recurse [OF eo' oc] it2
          by (cases ok2) (auto simp: resume_def)
        with res show ?thesis unfolding bl by auto
      next
        case clean: False
        then have bl: "before_fatal_list (e # es) = e # before_fatal_list es"
          using True by (simp add: fst_RegOpenKeyEx)
        show ?thesis
        proof (cases ok1)
          case False
          with "4.prems"(1) eo True nm it have res: "count' = count1" "trace' = trace1"
            by (simp_all add: subkey_loop_recurse)
          from False eo True nm it res show ?thesis unfolding bl
            by (auto simp: subkey_loop_recurse)
        next
          case ok1: True
          with "4.prems"(1) eo True nm it obtain es'' where
            rest: "subkey_loop d es n count1 trace1 = Some (ok, es'', count', trace')"
            by (auto simp: subkey_loop_recurse resume_Some)
          from "4.IH"(2) [OF en [symmetric] _ refl _ valid it refl refl refl _ rest len]
            enum_ok valid ok1
          obtain ok2 es2 where
            "subkey_loop d (before_fatal_list es) (length (before_fatal_list es)) count1 trace1 =
              Some (ok2, es2, count', trace')"
            by auto
          with ok1 eo True nm it show ?thesis unfolding bl
            by (auto simp: subkey_loop_recurse resume_def)
        qed
      qed
    next
      case False
      then have invalid: "\<not> isValid ?sub" by (simp add: isValid_RegKey_new)
      show ?thesis
      proof (cases "openFault e = ERROR_FILE_NOT_FOUND \<or> openFault e = ERROR_ACCESS_DENIED")
        case True
        with "4.prems"(1) eo obtain es'' where
          rest: "subkey_loop d es n count trace = Some (ok, es'', count', trace')"
          by (auto simp: subkey_loop_open_skipped resume_Some)
        from "4.IH"(3) [OF en [symmetric] _ refl _ invalid rest len] enum_ok True
        obtain ok2 es2 where
          "subkey_loop d (before_fatal_list es) (length (before_fatal_list es)) count trace =
            Some (ok2, es2, count', trace')"
          by (auto simp: getErrorCode_RegKey_new)
        moreover have bl: "before_fatal_list (e # es) = e # before_fatal_list es"
          using True False by (auto simp: fst_RegOpenKeyEx)
        ultimately show ?thesis using eo True unfolding bl
          by (auto simp: subkey_loop_open_skipped resume_def)
      next
        case fatal: False
        with "4.prems"(1) eo False have res: "count' = count" "trace' = trace"
          by (simp_all add: subkey_loop_open_fatal)
        have bl: "before_fatal_list (e # es) = []"
          using fatal False by (simp add: fst_RegOpenKeyEx)
        from res show ?thesis unfolding bl by auto
      qed
    qed
  qed
qed

subsection \<open>Runs of the example registries\<close>

lemma run_scenario:
  "iter (RegKey_new (hive (Key [scenario_A scenario_p] [])) [] 0) 0 [] =
     Some (True, Key [scenario_A (scenario_p\<lparr>content := REG_SZ scenario_new\<rparr>)] [], 1,
           [(''p'', scenario_new, ERROR_SUCCESS)])"
  by code_simp

lemma run_refused:
  "iter (RegKey_new (hive (Key [] [scenario_p\<lparr>setFault := ERROR_ACCESS_DENIED\<rparr>])) [] 0) 0 [] =
     Some (False, Key [] [scenario_p\<lparr>setFault := ERROR_ACCESS_DENIED\<rparr>], 1,
           [(''p'', scenario_new, ERROR_ACCESS_DENIED)])"
  by code_simp

lemma run_denied:
  "subkey_loop 0 [denied_child, scenario_A scenario_p] 2 0 [] =
     Some (True, [denied_child, scenario_A (scenario_p\<lparr>content := REG_SZ scenario_new\<rparr>)], 1,
           [(''p'', scenario_new, ERROR_SUCCESS)])"
  by code_simp

lemma run_binary:
  "value_loop 100 [binary_value, scenario_p] 2 0 [] =
     Some (True, [binary_value, scenario_p\<lparr>content := REG_SZ scenario_new\<rparr>], 1,
           [(''p'', scenario_new, ERROR_SUCCESS)])"
  by code_simp

lemma run_stuck:
  "iter (RegKey_new stuck_child ''S'' 1) 0 [] =
     Some (False, Key [broken_child] [scenario_p], 0, [])"
  by code_simp

lemma iter_True_value_loop:
  assumes "iter keyHolder count trace = Some (True, k', count', trace')"
    and "getKey keyHolder = Some k" and "info keyHolder = Some md"
  shows "\<exists>count1 trace1 vs'.
    value_loop (longestValueData md * 2 + 2) (vals k) (valueCount md) count1 trace1 =
      Some (True, vs', count', trace')"
  using assms by (fastforce simp: iter.simps split: option.splits if_splits)

subsection \<open>Claims about the walk\<close>

text \<open>
  Claim C1, the end-to-end scenario: a root with one child \<open>A\<close> that holds one string
  value \<open>p = C:\Users\from\data\<close>. The walk of the root returns success, the counter
  that started at 0 is 1, and \<open>p\<close> under \<open>A\<close> holds \<open>C:\Users\to\data\<close>.
\<close>

theorem end_to_end:
  "iter (RegKey_new (hive (Key [scenario_A scenario_p] [])) [] 0) 0 [] =
     Some (True, Key [scenario_A (scenario_p\<lparr>content := REG_SZ scenario_new\<rparr>)] [], 1,
           [(''p'', scenario_new, ERROR_SUCCESS)]) \<and>
   content scenario_p =
     REG_SZ (''C:'' @ [CHR 0x5C] @ ''Users'' @ [CHR 0x5C] @ ''from'' @ [CHR 0x5C] @ ''data'') \<and>
   content (scenario_p\<lparr>content := REG_SZ scenario_new\<rparr>) =
     REG_SZ (''C:'' @ [CHR 0x5C] @ ''Users'' @ [CHR 0x5C] @ ''to'' @ [CHR 0x5C] @ ''data'')"
  using run_scenario by (simp add: scenario_p_def scenario_new_def)

text \<open>
  Claim C2, as the specification states it: the counter grows by the number of values
  whose replacement was written back successfully, whether the walk succeeds or aborts.
  The code counts a value when it matches, before it writes: a key whose only value
  matches and whose write is refused leaves the counter at 1 with no accepted write.
\<close>

theorem counted_before_written:
  "iter (RegKey_new (hive (Key [] [scenario_p\<lparr>setFault := ERROR_ACCESS_DENIED\<rparr>])) [] 0) 0 [] =
     Some (False, Key [] [scenario_p\<lparr>setFault := ERROR_ACCESS_DENIED\<rparr>], 1,
           [(''p'', scenario_new, ERROR_ACCESS_DENIED)]) \<and>
   accepted [(''p'', scenario_new, ERROR_ACCESS_DENIED)] = 0"
  using run_refused by (simp add: accepted_def ERROR_ACCESS_DENIED_def ERROR_SUCCESS_def)

text \<open>
  Claim C2, amended: for every walk that returns, the counter grows by the number of
  values found to match, which is the number of write-backs the walk issued. When the
  walk succeeds, every one of them was accepted, so the growth is the number of values
  rewritten; when it aborts, the growth is that number or one more (the matching value
  whose write was refused).
\<close>

theorem iter_counts_matches:
  assumes "iter keyHolder count trace = Some (ok, k', count', trace')"
  shows "\<exists>new. trace' = trace @ new \<and> count' - count = int (length new) \<and>
           (ok \<longrightarrow> count' - count = int (accepted new)) \<and>
           accepted new \<le> length new \<and> length new \<le> accepted new + 1"
proof -
  from iter_tally [OF assms] obtain new where
    "trace' = trace @ new" "count' = count + int (length new)"
    "ok \<longrightarrow> accepted new = length new" "length new \<le> accepted new + 1"
    unfolding tally_def by blast
  with accepted_le [of new] show ?thesis by auto
qed

theorem iter_counts_matches_witness:
  "iter (RegKey_new (hive (Key [scenario_A scenario_p] [])) [] 0) 0 [] =
     Some (True, Key [scenario_A (scenario_p\<lparr>content := REG_SZ scenario_new\<rparr>)] [], 1,
           [(''p'', scenario_new, ERROR_SUCCESS)]) \<and>
   (\<exists>new. [(''p'', scenario_new, ERROR_SUCCESS)] = [] @ new \<and> (1::int) - 0 = int (length new) \<and>
      (1::int) - 0 = int (accepted new) \<and> accepted new \<le> length new \<and>
      length new \<le> accepted new + 1)"
  using iter_counts_matches [OF run_scenario] run_scenario by simp

text \<open>
  Claim C10: the counter is monotone. Whenever a call of \<open>iter\<close> returns, with success
  or with failure, the counter is at least what it was at entry. A call on an open
  handle returns unless the counter would overflow.
\<close>

theorem iter_count_monotone:
  "(iter keyHolder count trace = Some (ok, k', count', trace') \<longrightarrow> count \<le> count') \<and>
   (getKey keyHolder = Some k \<and> info keyHolder = Some md \<and>
    count + int (total_values k) \<le> INT_MAX \<longrightarrow>
      (\<exists>r. iter keyHolder count trace = Some r))"
proof (intro conjI impI)
  assume "iter keyHolder count trace = Some (ok, k', count', trace')"
  from iter_tally [OF this] show "count \<le> count'" unfolding tally_def by auto
next
  assume "getKey keyHolder = Some k \<and> info keyHolder = Some md \<and>
    count + int (total_values k) \<le> INT_MAX"
  then show "\<exists>r. iter keyHolder count trace = Some r"
    using iter_returns_bounded [of keyHolder k md count trace] by auto
qed

theorem iter_count_monotone_witness:
  "iter (RegKey_new (hive (Key [] [scenario_p\<lparr>setFault := ERROR_ACCESS_DENIED\<rparr>])) [] 0) 0 [] =
     Some (False, Key [] [scenario_p\<lparr>setFault := ERROR_ACCESS_DENIED\<rparr>], 1,
           [(''p'', scenario_new, ERROR_ACCESS_DENIED)]) \<and> (0::int) \<le> 1 \<and>
   getKey (RegKey_new (hive (Key [scenario_A scenario_p] [])) [] 0) =
     Some (Key [scenario_A scenario_p] []) \<and>
   info (RegKey_new (hive (Key [scenario_A scenario_p] [])) [] 0) =
     Some (RegQueryInfoKey (Key [scenario_A scenario_p] [])) \<and>
   0 + int (total_values (Key [scenario_A scenario_p] [])) \<le> INT_MAX \<and>
   (\<exists>r. iter (RegKey_new (hive (Key [scenario_A scenario_p] [])) [] 0) 0 [] = Some r)"
proof -
  have k: "getKey (RegKey_new (hive (Key [scenario_A scenario_p] [])) [] 0) =
     Some (Key [scenario_A scenario_p] [])"
    by (simp add: key_RegKey_new hive_def)
  have i: "info (RegKey_new (hive (Key [scenario_A scenario_p] [])) [] 0) =
     Some (RegQueryInfoKey (Key [scenario_A scenario_p] []))"
    by (simp add: info_RegKey_new hive_def)
  have b: "0 + int (total_values (Key [scenario_A scenario_p] [])) \<le> INT_MAX"
    by (simp add: scenario_A_def INT_MAX_def)
  from iter_count_monotone [of "RegKey_new (hive (Key [] [scenario_p\<lparr>setFault := ERROR_ACCESS_DENIED\<rparr>])) [] 0"
      0 "[]" False _ 1 _ "Key [scenario_A scenario_p] []"] run_refused
  have "(0::int) \<le> 1" by simp
  moreover from iter_count_monotone [of "RegKey_new (hive (Key [scenario_A scenario_p] [])) [] 0"
      0 "[]" True _ 1 _ "Key [scenario_A scenario_p] []" "RegQueryInfoKey (Key [scenario_A scenario_p] [])"] k i b
  have "\<exists>r. iter (RegKey_new (hive (Key [scenario_A scenario_p] [])) [] 0) 0 [] = Some r"
    by blast
  ultimately show ?thesis using run_refused k i b by simp
qed

text \<open>
  Claim C4: in the enumeration of the children, a child whose open fails with
  \<open>ERROR_ACCESS_DENIED\<close> is skipped: the loop goes on with the next sibling and the
  same counter, does not recurse, and leaves the child as it is. A child whose open
  fails with a code other than access-denied and not-found makes the loop return
  failure at once. The failure goes upward and aborts the whole enclosing walk: a loop
  whose child's walk fails returns failure at once, with the counter and the trace of
  that walk and the later siblings as they were; \<open>iter\<close> returns the failure of its
  first loop without entering its second, so its own values are as they were. For the
  walk of a root with such a child anywhere below: it returns failure, and it has
  counted and written what the walk of the tree cut off at that child counts and writes.
\<close>

theorem subkey_open_failure:
  "(fst (RegEnumKeyEx e MAX_KEY_LENGTH) = ERROR_SUCCESS \<and>
    fst (RegOpenKeyEx e) = ERROR_ACCESS_DENIED \<longrightarrow>
      subkey_loop d (e # es) (Suc n) count trace = resume e (subkey_loop d es n count trace)) \<and>
   (fst (RegEnumKeyEx e MAX_KEY_LENGTH) = ERROR_SUCCESS \<and>
    fst (RegOpenKeyEx e) \<notin> {ERROR_SUCCESS, ERROR_FILE_NOT_FOUND, ERROR_ACCESS_DENIED} \<longrightarrow>
      subkey_loop d (e # es) (Suc n) count trace = Some (False, e # es, count, trace)) \<and>
   (fst (RegEnumKeyEx e MAX_KEY_LENGTH) = ERROR_SUCCESS \<and>
    fst (RegOpenKeyEx e) = ERROR_SUCCESS \<and>
    iter (RegKey_new e (subkeyName e) (d + 1)) count trace = Some (False, k1, count1, trace1) \<longrightarrow>
      subkey_loop d (e # es) (Suc n) count trace =
        Some (False, Subkey (enumKeyFault e) (subkeyName e) (openFault e) k1 # es,
              count1, trace1)) \<and>
   (getKey keyHolder = Some k \<and> info keyHolder = Some md \<and>
    subkey_loop (getDepth keyHolder) (subkeys k) (subkeyCount md) count trace =
      Some (False, sks, count1, trace1) \<longrightarrow>
      iter keyHolder count trace = Some (False, Key sks (vals k), count1, trace1)) \<and>
   (getKey rootHolder = Some r \<and> info rootHolder = Some (RegQueryInfoKey r) \<and>
    fatal_open r \<and> count + int (total_values r) \<le> INT_MAX \<longrightarrow>
      (\<exists>sks' count' trace'.
         iter rootHolder count trace = Some (False, Key sks' (vals r), count', trace') \<and>
         (\<exists>ok2 k2.
            iter (RegKey_new (hive (before_fatal r)) (getName rootHolder) (getDepth rootHolder))
              count trace = Some (ok2, k2, count', trace'))))"
proof (intro conjI impI)
  assume "fst (RegEnumKeyEx e MAX_KEY_LENGTH) = ERROR_SUCCESS \<and>
    fst (RegOpenKeyEx e) = ERROR_ACCESS_DENIED"
  then show "subkey_loop d (e # es) (Suc n) count trace =
      resume e (subkey_loop d es n count trace)"
    by (simp add: subkey_loop_open_skipped fst_RegOpenKeyEx)
next
  assume "fst (RegEnumKeyEx e MAX_KEY_LENGTH) = ERROR_SUCCESS \<and>
    fst (RegOpenKeyEx e) \<notin> {ERROR_SUCCESS, ERROR_FILE_NOT_FOUND, ERROR_ACCESS_DENIED}"
  then show "subkey_loop d (e # es) (Suc n) count trace = Some (False, e # es, count, trace)"
    by (simp add: subkey_loop_open_fatal fst_RegOpenKeyEx)
next
  assume "fst (RegEnumKeyEx e MAX_KEY_LENGTH) = ERROR_SUCCESS \<and>
    fst (RegOpenKeyEx e) = ERROR_SUCCESS \<and>
    iter (RegKey_new e (subkeyName e) (d + 1)) count trace = Some (False, k1, count1, trace1)"
  then show "subkey_loop d (e # es) (Suc n) count trace =
        Some (False, Subkey (enumKeyFault e) (subkeyName e) (openFault e) k1 # es,
              count1, trace1)"
    by (simp add: subkey_loop_child_fails)
next
  assume "getKey keyHolder = Some k \<and> info keyHolder = Some md \<and>
    subkey_loop (getDepth keyHolder) (subkeys k) (subkeyCount md) count trace =
      Some (False, sks, count1, trace1)"
  then show "iter keyHolder count trace = Some (False, Key sks (vals k), count1, trace1)"
    by (simp add: iter_subkeys_fail)
next
  let ?cut = "RegKey_new (hive (before_fatal r)) (getName rootHolder) (getDepth rootHolder)"
  assume a: "getKey rootHolder = Some r \<and> info rootHolder = Some (RegQueryInfoKey r) \<and>
    fatal_open r \<and> count + int (total_values r) \<le> INT_MAX"
  with iter_fatal_open [of rootHolder r count trace] obtain sks' count' trace' where
    r: "iter rootHolder count trace = Some (False, Key sks' (vals r), count', trace')"
    by blast
  have "getKey ?cut = Some (before_fatal r)" "info ?cut = Some (RegQueryInfoKey (before_fatal r))"
    "getDepth ?cut = getDepth rootHolder"
    by (simp_all add: key_RegKey_new info_RegKey_new getDepth_RegKey_new hive_def)
  with iter_before_fatal [OF r, of r ?cut] a
  have "\<exists>ok2 k2. iter ?cut count trace = Some (ok2, k2, count', trace')" by simp
  with r show "\<exists>sks' count' trace'.
         iter rootHolder count trace = Some (False, Key sks' (vals r), count', trace') \<and>
         (\<exists>ok2 k2. iter ?cut count trace = Some (ok2, k2, count', trace'))"
    by blast
qed

theorem subkey_open_failure_witness:
  "fst (RegEnumKeyEx denied_child MAX_KEY_LENGTH) = ERROR_SUCCESS \<and>
   fst (RegOpenKeyEx denied_child) = ERROR_ACCESS_DENIED \<and>
   subkey_loop 0 [denied_child, scenario_A scenario_p] 2 0 [] =
     resume denied_child (subkey_loop 0 [scenario_A scenario_p] 1 0 []) \<and>
   subkey_loop 0 [denied_child, scenario_A scenario_p] 2 0 [] =
     Some (True, [denied_child, scenario_A (scenario_p\<lparr>content := REG_SZ scenario_new\<rparr>)], 1,
           [(''p'', scenario_new, ERROR_SUCCESS)]) \<and>
   fst (RegEnumKeyEx broken_child MAX_KEY_LENGTH) = ERROR_SUCCESS \<and>
   fst (RegOpenKeyEx broken_child) = 8 \<and>
   subkey_loop 0 [broken_child, scenario_A scenario_p] 2 0 [] =
     Some (False, [broken_child, scenario_A scenario_p], 0, []) \<and>
   fst (RegEnumKeyEx stuck_child MAX_KEY_LENGTH) = ERROR_SUCCESS \<and>
   fst (RegOpenKeyEx stuck_child) = ERROR_SUCCESS \<and>
   iter (RegKey_new stuck_child ''S'' 1) 0 [] =
     Some (False, Key [broken_child] [scenario_p], 0, []) \<and>
   subkey_loop 0 [stuck_child, scenario_A scenario_p] 2 0 [] =
     Some (False, [stuck_child, scenario_A scenario_p], 0, []) \<and>
   fatal_open (Key [scenario_A scenario_p, stuck_child] [scenario_p]) \<and>
   0 + int (total_values (Key [scenario_A scenario_p, stuck_child] [scenario_p])) \<le> INT_MAX \<and>
   subkey_loop 0 [scenario_A scenario_p, stuck_child] 2 0 [] =
     Some (False, [scenario_A (scenario_p\<lparr>content := REG_SZ scenario_new\<rparr>), stuck_child], 1,
           [(''p'', scenario_new, ERROR_SUCCESS)]) \<and>
   iter (RegKey_new (hive (Key [scenario_A scenario_p, stuck_child] [scenario_p])) [] 0) 0 [] =
     Some (False,
       Key [scenario_A (scenario_p\<lparr>content := REG_SZ scenario_new\<rparr>), stuck_child] [scenario_p],
       1, [(''p'', scenario_new, ERROR_SUCCESS)]) \<and>
   (\<exists>ok2 k2.
      iter (RegKey_new (hive (before_fatal (Key [scenario_A scenario_p, stuck_child] [scenario_p])))
        [] 0) 0 [] = Some (ok2, k2, 1, [(''p'', scenario_new, ERROR_SUCCESS)]))"
proof -
  let ?r = "Key [scenario_A scenario_p, stuck_child] [scenario_p]"
  let ?h = "RegKey_new (hive ?r) [] 0"
  let ?w = "[(''p'', scenario_new, ERROR_SUCCESS)]"
  let ?A' = "scenario_A (scenario_p\<lparr>content := REG_SZ scenario_new\<rparr>)"
  have d1: "fst (RegEnumKeyEx denied_child MAX_KEY_LENGTH) = ERROR_SUCCESS"
    and d2: "fst (RegOpenKeyEx denied_child) = ERROR_ACCESS_DENIED"
    by (simp_all add: RegEnumKeyEx_def RegOpenKeyEx_def denied_child_def MAX_KEY_LENGTH_def
        ERROR_SUCCESS_def ERROR_ACCESS_DENIED_def)
  have b1: "fst (RegEnumKeyEx broken_child MAX_KEY_LENGTH) = ERROR_SUCCESS"
    and b2: "fst (RegOpenKeyEx broken_child) = 8"
    and b3: "fst (RegOpenKeyEx broken_child) \<notin>
      {ERROR_SUCCESS, ERROR_FILE_NOT_FOUND, ERROR_ACCESS_DENIED}"
    by (simp_all add: RegEnumKeyEx_def RegOpenKeyEx_def broken_child_def MAX_KEY_LENGTH_def
        ERROR_SUCCESS_def ERROR_ACCESS_DENIED_def ERROR_FILE_NOT_FOUND_def)
  have c1: "fst (RegEnumKeyEx stuck_child MAX_KEY_LENGTH) = ERROR_SUCCESS"
    and c2: "fst (RegOpenKeyEx stuck_child) = ERROR_SUCCESS"
    and c3: "subkeyName stuck_child = ''S''"
    and c4: "Subkey (enumKeyFault stuck_child) (subkeyName stuck_child) (openFault stuck_child)
        (Key [broken_child] [scenario_p]) = stuck_child"
    by (simp_all add: RegEnumKeyEx_def RegOpenKeyEx_def stuck_child_def MAX_KEY_LENGTH_def)
  have f: "fatal_open ?r" by code_simp
  have tv: "0 + int (total_values ?r) \<le> INT_MAX"
    by (simp add: scenario_A_def stuck_child_def INT_MAX_def broken_child_def)
  have k: "getKey ?h = Some ?r" by (simp add: key_RegKey_new hive_def)
  have i: "info ?h = Some (RegQueryInfoKey ?r)" by (simp add: info_RegKey_new hive_def)
  have gd: "getDepth ?h = 0" "getName ?h = []"
    by (simp_all add: getDepth_def getName_def RegKey_new_def RegOpenKeyEx_def
        getInfo_def hive_def)
  have sc: "subkeyCount (RegQueryInfoKey ?r) = 2" "subkeys ?r = [scenario_A scenario_p, stuck_child]"
    "vals ?r = [scenario_p]"
    by (simp_all add: RegQueryInfoKey_def)
  note thm1 = subkey_open_failure [where e = denied_child and d = 0 and es = "[scenario_A scenario_p]"
      and n = 1 and count = 0 and trace = "[]"]
  from thm1 d1 d2
  have s1: "subkey_loop 0 [denied_child, scenario_A scenario_p] 2 0 [] =
     resume denied_child (subkey_loop 0 [scenario_A scenario_p] 1 0 [])"
    by (simp add: numeral_2_eq_2)
  from subkey_open_failure [where e = broken_child and d = 0 and es = "[scenario_A scenario_p]"
      and n = 1 and count = 0 and trace = "[]"] b1 b3
  have s2: "subkey_loop 0 [broken_child, scenario_A scenario_p] 2 0 [] =
     Some (False, [broken_child, scenario_A scenario_p], 0, [])"
    by (simp add: numeral_2_eq_2)
  from subkey_open_failure [where e = stuck_child and d = 0 and es = "[scenario_A scenario_p]"
      and n = 1 and count = 0 and trace = "[]" and ?k1.0 = "Key [broken_child] [scenario_p]"
      and ?count1.0 = 0 and ?trace1.0 = "[]"] c1 c2 c3 c4 run_stuck
  have s3: "subkey_loop 0 [stuck_child, scenario_A scenario_p] 2 0 [] =
     Some (False, [stuck_child, scenario_A scenario_p], 0, [])"
    by (simp add: numeral_2_eq_2)
  have l4: "subkey_loop 0 [scenario_A scenario_p, stuck_child] 2 0 [] =
     Some (False, [?A', stuck_child], 1, ?w)"
    by code_simp
  from subkey_open_failure [where keyHolder = ?h and k = ?r and md = "RegQueryInfoKey ?r"
      and count = 0 and trace = "[]" and sks = "[?A', stuck_child]" and ?count1.0 = 1
      and ?trace1.0 = ?w] k i gd sc l4
  have s4: "iter ?h 0 [] = Some (False, Key [?A', stuck_child] [scenario_p], 1, ?w)"
    by simp
  have "\<exists>sks' count' trace'.
      iter ?h 0 [] = Some (False, Key sks' (vals ?r), count', trace') \<and>
      (\<exists>ok2 k2. iter (RegKey_new (hive (before_fatal ?r)) (getName ?h) (getDepth ?h)) 0 [] =
         Some (ok2, k2, count', trace'))"
    using subkey_open_failure [where rootHolder = ?h and r = ?r and count = 0 and trace = "[]"]
      k i f tv
    by blast
  then obtain sks' count' trace' ok2 k2 where
    "iter ?h 0 [] = Some (False, Key sks' (vals ?r), count', trace')"
    "iter (RegKey_new (hive (before_fatal ?r)) [] 0) 0 [] = Some (ok2, k2, count', trace')"
    unfolding gd by blast
  with s4 have s5: "\<exists>ok2 k2. iter (RegKey_new (hive (before_fatal ?r)) [] 0) 0 [] =
      Some (ok2, k2, 1, ?w)"
    by auto
  from d1 d2 s1 run_denied b1 b2 s2 c1 c2 run_stuck s3 f tv l4 s4 s5 show ?thesis
    by simp
qed

text \<open>
  Claim C6: when the fetch of a value reports \<open>ERROR_UNSUPPORTED_TYPE\<close> (the value is
  not string-typed), the loop skips it: it goes on with the next value and the same
  counter, and leaves the value as it is. Any fetch error other than that aborts: the
  loop returns failure at once, and so does the walk of a key that holds such a value.
\<close>

theorem value_fetch_failure:
  "(fst (RegEnumValue v MAX_VALUE_NAME) = ERROR_SUCCESS \<and>
    fst (RegGetValue v cb) = ERROR_UNSUPPORTED_TYPE \<longrightarrow>
      value_loop cb (v # vs) (Suc n) count trace = resume v (value_loop cb vs n count trace)) \<and>
   (fst (RegEnumValue v MAX_VALUE_NAME) = ERROR_SUCCESS \<and>
    fst (RegGetValue v cb) \<notin> {ERROR_SUCCESS, ERROR_UNSUPPORTED_TYPE} \<longrightarrow>
      value_loop cb (v # vs) (Suc n) count trace = Some (False, v # vs, count, trace)) \<and>
   (getKey keyHolder = Some k \<and> info keyHolder = Some md \<and>
    w \<in> set (take (valueCount md) (vals k)) \<and>
    fst (RegGetValue w (longestValueData md * 2 + 2)) \<notin> {ERROR_SUCCESS, ERROR_UNSUPPORTED_TYPE} \<and>
    count + int (total_values k) \<le> INT_MAX \<longrightarrow>
      (\<exists>k' count' trace'. iter keyHolder count trace = Some (False, k', count', trace')))"
proof (intro conjI impI)
  assume "fst (RegEnumValue v MAX_VALUE_NAME) = ERROR_SUCCESS \<and>
    fst (RegGetValue v cb) = ERROR_UNSUPPORTED_TYPE"
  then show "value_loop cb (v # vs) (Suc n) count trace =
      resume v (value_loop cb vs n count trace)"
    by (simp add: value_loop_unsupported)
next
  assume "fst (RegEnumValue v MAX_VALUE_NAME) = ERROR_SUCCESS \<and>
    fst (RegGetValue v cb) \<notin> {ERROR_SUCCESS, ERROR_UNSUPPORTED_TYPE}"
  then show "value_loop cb (v # vs) (Suc n) count trace = Some (False, v # vs, count, trace)"
    by (simp add: value_loop_get_fatal)
next
  assume a: "getKey keyHolder = Some k \<and> info keyHolder = Some md \<and>
    w \<in> set (take (valueCount md) (vals k)) \<and>
    fst (RegGetValue w (longestValueData md * 2 + 2)) \<notin> {ERROR_SUCCESS, ERROR_UNSUPPORTED_TYPE} \<and>
    count + int (total_values k) \<le> INT_MAX"
  then obtain ok k' count' trace' where
    r: "iter keyHolder count trace = Some (ok, k', count', trace')"
    using iter_returns_bounded [of keyHolder k md count trace] by blast
  have "\<not> ok"
  proof
    assume ok
    with r a iter_True_value_loop [of keyHolder count trace k' count' trace' k md]
    obtain count1 trace1 vs' where
      "value_loop (longestValueData md * 2 + 2) (vals k) (valueCount md) count1 trace1 =
        Some (True, vs', count', trace')"
      by auto
    from value_loop_fetches [OF this, of w] a show False by simp
  qed
  with r show "\<exists>k' count' trace'. iter keyHolder count trace = Some (False, k', count', trace')"
    by auto
qed

theorem value_fetch_failure_witness:
  "fst (RegEnumValue binary_value MAX_VALUE_NAME) = ERROR_SUCCESS \<and>
   fst (RegGetValue binary_value 100) = ERROR_UNSUPPORTED_TYPE \<and>
   value_loop 100 [binary_value, scenario_p] 2 0 [] =
     resume binary_value (value_loop 100 [scenario_p] 1 0 []) \<and>
   value_loop 100 [binary_value, scenario_p] 2 0 [] =
     Some (True, [binary_value, scenario_p\<lparr>content := REG_SZ scenario_new\<rparr>], 1,
           [(''p'', scenario_new, ERROR_SUCCESS)]) \<and>
   fst (RegGetValue (scenario_p\<lparr>getFault := ERROR_ACCESS_DENIED\<rparr>) 100) = ERROR_ACCESS_DENIED \<and>
   value_loop 100 [scenario_p\<lparr>getFault := ERROR_ACCESS_DENIED\<rparr>, scenario_p] 2 0 [] =
     Some (False, [scenario_p\<lparr>getFault := ERROR_ACCESS_DENIED\<rparr>, scenario_p], 0, []) \<and>
   (\<exists>k' count' trace'.
      iter (RegKey_new (hive (Key [] [scenario_p, scenario_p\<lparr>getFault := ERROR_ACCESS_DENIED\<rparr>])) [] 0)
        0 [] = Some (False, k', count', trace'))"
proof -
  let ?bad = "scenario_p\<lparr>getFault := ERROR_ACCESS_DENIED\<rparr>"
  let ?k = "Key [] [scenario_p, ?bad]"
  have e1: "fst (RegEnumValue binary_value MAX_VALUE_NAME) = ERROR_SUCCESS"
    and g1: "fst (RegGetValue binary_value 100) = ERROR_UNSUPPORTED_TYPE"
    by (simp_all add: RegEnumValue_def RegGetValue_def binary_value_def MAX_VALUE_NAME_def
        ERROR_SUCCESS_def)
  have e2: "fst (RegEnumValue ?bad MAX_VALUE_NAME) = ERROR_SUCCESS"
    and g2: "fst (RegGetValue ?bad cb) = ERROR_ACCESS_DENIED"
    and g3: "fst (RegGetValue ?bad cb) \<notin> {ERROR_SUCCESS, ERROR_UNSUPPORTED_TYPE}" for cb
    by (simp_all add: RegEnumValue_def RegGetValue_def scenario_p_def MAX_VALUE_NAME_def
        ERROR_SUCCESS_def ERROR_ACCESS_DENIED_def ERROR_UNSUPPORTED_TYPE_def)
  have tv: "0 + int (total_values ?k) \<le> INT_MAX" by (simp add: INT_MAX_def)
  have k: "getKey (RegKey_new (hive ?k) [] 0) = Some ?k"
    by (simp add: key_RegKey_new hive_def)
  have i: "info (RegKey_new (hive ?k) [] 0) = Some (RegQueryInfoKey ?k)"
    by (simp add: info_RegKey_new hive_def)
  have m: "?bad \<in> set (take (valueCount (RegQueryInfoKey ?k)) (vals ?k))"
    by (simp add: RegQueryInfoKey_def)
  from value_fetch_failure [of binary_value 100 "[scenario_p]" 1 0 "[]"] e1 g1
  have s1: "value_loop 100 [binary_value, scenario_p] 2 0 [] =
     resume binary_value (value_loop 100 [scenario_p] 1 0 [])"
    by (simp add: numeral_2_eq_2)
  from value_fetch_failure [of ?bad 100 "[scenario_p]" 1 0 "[]"] e2 g3
  have s2: "value_loop 100 [?bad, scenario_p] 2 0 [] = Some (False, [?bad, scenario_p], 0, [])"
    by (simp add: numeral_2_eq_2)
  from value_fetch_failure [of _ _ _ _ 0 "[]" "RegKey_new (hive ?k) [] 0" ?k
      "RegQueryInfoKey ?k" ?bad] k i m g3 tv
  have s3: "\<exists>k' count' trace'.
      iter (RegKey_new (hive ?k) [] 0) 0 [] = Some (False, k', count', trace')"
    by blast
  from e1 g1 s1 run_binary g2 s2 s3 show ?thesis by simp
qed

text \<open>
  Claim C7: when the open of a node fails, the handle records the error code of the
  registry, \<open>isValid\<close> is false (it is true exactly when the open succeeded), and the
  cached metadata (subkey count, value count, longest value size) is never assigned.
\<close>

theorem RegKey_open_failure:
  "isValid (RegKey_new e nm d) = (fst (RegOpenKeyEx e) = ERROR_SUCCESS) \<and>
   getErrorCode (RegKey_new e nm d) = fst (RegOpenKeyEx e) \<and>
   (fst (RegOpenKeyEx e) \<noteq> ERROR_SUCCESS \<longrightarrow>
      \<not> isValid (RegKey_new e nm d) \<and> info (RegKey_new e nm d) = None \<and>
      getKey (RegKey_new e nm d) = None) \<and>
   (fst (RegOpenKeyEx e) = ERROR_SUCCESS \<longrightarrow>
      info (RegKey_new e nm d) = Some (RegQueryInfoKey (target e)))"
  by (simp add: isValid_def getErrorCode_def getKey_def RegKey_new_def RegOpenKeyEx_def
      getInfo_def)

theorem RegKey_open_failure_witness:
  "fst (RegOpenKeyEx denied_child) \<noteq> ERROR_SUCCESS \<and>
   \<not> isValid (RegKey_new denied_child ''D'' 1) \<and>
   getErrorCode (RegKey_new denied_child ''D'' 1) = ERROR_ACCESS_DENIED \<and>
   info (RegKey_new denied_child ''D'' 1) = None \<and>
   fst (RegOpenKeyEx (scenario_A scenario_p)) = ERROR_SUCCESS \<and>
   isValid (RegKey_new (scenario_A scenario_p) ''A'' 1) \<and>
   info (RegKey_new (scenario_A scenario_p) ''A'' 1) =
     Some \<lparr>subkeyCount = 0, valueCount = 1, longestValueData = 38\<rparr>"
proof -
  have d: "fst (RegOpenKeyEx denied_child) = ERROR_ACCESS_DENIED"
    by (simp add: RegOpenKeyEx_def denied_child_def ERROR_SUCCESS_def ERROR_ACCESS_DENIED_def)
  then have d': "fst (RegOpenKeyEx denied_child) \<noteq> ERROR_SUCCESS"
    by (simp add: ERROR_SUCCESS_def ERROR_ACCESS_DENIED_def)
  have a: "fst (RegOpenKeyEx (scenario_A scenario_p)) = ERROR_SUCCESS"
    by (simp add: RegOpenKeyEx_def scenario_A_def)
  have q: "RegQueryInfoKey (target (scenario_A scenario_p)) =
      \<lparr>subkeyCount = 0, valueCount = 1, longestValueData = 38\<rparr>"
    by (simp add: RegQueryInfoKey_def scenario_A_def scenario_p_def)
  from RegKey_open_failure [of denied_child "''D''" 1] d d'
    RegKey_open_failure [of "scenario_A scenario_p" "''A''" 1] a q
  show ?thesis by simp
qed

end
